theory Spec2Isabelle
  imports Complex_Main "HOL-Library.Word" "HOL-Library.Log_Nat" "HOL-Library.Monad_Syntax"
begin

unbundle bit_operations_syntax

chapter \<open>The scheduling layer of the Gaussian rasterizer (rasterizer\_impl.cu)\<close>

section \<open>Machine types\<close>

type_synonym uint32_t = "32 word"
type_synonym uint64_t = "64 word"
type_synonym size_t = "64 word"

text \<open>CUDA's \<open>uint2\<close>; in the tile range table \<open>x\<close> is the start and \<open>y\<close> the end of a range.\<close>

record uint2 =
  u2x :: uint32_t
  u2y :: uint32_t

text \<open>CUDA's \<open>dim3\<close>; the \<open>z\<close> extent of the tile grid is always 1 and never read.\<close>

record dim3 =
  d3x :: uint32_t
  d3y :: uint32_t

text \<open>
  Device code has no exceptions: a thread that reads or writes outside an array is an illegal
  memory access, after which nothing is known about the contents of device memory. Kernels
  therefore return \<open>option\<close>, with \<open>None\<close> for such an access. The host code is not told:
  \<open>CHECK_CUDA\<close> only asks for errors when \<open>debug\<close> is set, which is not modelled, and an
  access outside an array need not be detected at all. Host code fails with one of the errors
  below.
\<close>

datatype error =
  ConfigError        \<comment> \<open>the \<open>std::runtime_error\<close> thrown by \<open>forward\<close>\<close>
  | OutOfBounds      \<comment> \<open>host read outside the array it indexes\<close>

definition nth_opt :: "'a list \<Rightarrow> nat \<Rightarrow> 'a option" where
  "nth_opt xs i = (if i < length xs then Some (xs ! i) else None)"

text \<open>
  A kernel launch runs one thread per index. The threads of the kernels below write to pairwise
  different cells, so they are run here one after the other, in the order of the given list.
\<close>

fun run_threads :: "(nat \<Rightarrow> 's \<Rightarrow> 's option) \<Rightarrow> nat list \<Rightarrow> 's \<Rightarrow> 's option" where
  "run_threads thread [] s = Some s"
| "run_threads thread (idx # rest) s =
     (case thread idx s of None \<Rightarrow> None | Some s' \<Rightarrow> run_threads thread rest s')"

text \<open>The launch configuration \<open><<<(n + 255) / 256, 256>>>\<close>: the indices of all launched threads.\<close>

definition launched :: "nat \<Rightarrow> nat list" where
  "launched n = [0 ..< ((n + 255) div 256) * 256]"

section \<open>getHigherMsb\<close>

text \<open>
  \<open>msb\<close> starts at \<open>sizeof(n) * 4 = 16\<close>. The shifts \<open>n >> msb\<close> are only evaluated for
  \<open>msb < 32\<close>, where \<open>drop_bit\<close> is C's shift.
\<close>

function getHigherMsb_loop :: "uint32_t \<Rightarrow> uint32_t \<Rightarrow> uint32_t \<Rightarrow> uint32_t" where
  "getHigherMsb_loop n msb step =
     (if 1 < step then
        (let step' = step div 2 in
         if drop_bit (unat msb) n \<noteq> 0
         then getHigherMsb_loop n (msb + step') step'
         else getHigherMsb_loop n (msb - step') step')
      else msb)"
  by pat_completeness auto
termination
proof (relation "measure (\<lambda>(n, msb, step). unat step)")
  show "wf (measure (\<lambda>(n::uint32_t, msb::uint32_t, step::uint32_t). unat step))" by simp
next
  fix n msb step step' :: uint32_t
  assume "1 < step" "step' = step div 2"
  then show "((n, msb + step', step'), n, msb, step) \<in> measure (\<lambda>(n, msb, step). unat step)"
    by (simp add: unat_div word_less_nat_alt)
next
  fix n msb step step' :: uint32_t
  assume "1 < step" "step' = step div 2"
  then show "((n, msb - step', step'), n, msb, step) \<in> measure (\<lambda>(n, msb, step). unat step)"
    by (simp add: unat_div word_less_nat_alt)
qed

declare getHigherMsb_loop.simps [simp del]

definition getHigherMsb :: "uint32_t \<Rightarrow> uint32_t" where
  "getHigherMsb n =
     (let msb = getHigherMsb_loop n 16 16
      in if drop_bit (unat msb) n \<noteq> 0 then msb + 1 else msb)"

text \<open>
  \<open>int bit = getHigherMsb(tile_grid.x * tile_grid.y)\<close> and the \<open>end_bit\<close> argument
  \<open>32 + bit\<close> of the sort. The product is a 32-bit unsigned one.
\<close>

definition sort_end_bit :: "dim3 \<Rightarrow> int" where
  "sort_end_bit tile_grid = 32 + sint (getHigherMsb (d3x tile_grid * d3y tile_grid))"

section \<open>Instance expansion: duplicateWithKeys\<close>

text \<open>
  The unclamped integer tile coordinates of the corners of a primitive's screen bounding box.
  \<open>getRect\<close> computes them in floating point from \<open>points_xy[idx]\<close> and \<open>radii[idx]\<close>; they are
  taken as given, one box per primitive, in place of the array \<open>points_xy\<close>.
\<close>

record tile_box =
  box_min_x :: int
  box_min_y :: int
  box_max_x :: int
  box_max_y :: int

definition clamp_to_grid :: "int \<Rightarrow> uint32_t \<Rightarrow> uint32_t" where
  "clamp_to_grid v g = word_of_int (min (uint g) (max 0 v))"

text \<open>
  Modelled from the spec: \<open>getRect\<close> is declared in auxiliary.h, which is not part of the
  sources at hand. The spec (4.4) says that it computes ``the integer tile-rectangle its screen
  bounding box overlaps (clamped to the grid)'': every corner coordinate is clamped into
  \<open>[0, grid]\<close>.
\<close>

definition getRect :: "tile_box \<Rightarrow> dim3 \<Rightarrow> uint2 \<times> uint2" where
  "getRect b grid =
     (\<lparr>u2x = clamp_to_grid (box_min_x b) (d3x grid), u2y = clamp_to_grid (box_min_y b) (d3y grid)\<rparr>,
      \<lparr>u2x = clamp_to_grid (box_max_x b) (d3x grid), u2y = clamp_to_grid (box_max_y b) (d3y grid)\<rparr>)"

text \<open>
  \<open>uint64_t key = y * grid.x + x; key <<= 32; key |= *((uint32_t* )&depths[idx]);\<close>
  The product and sum are 32-bit unsigned (\<open>int\<close> times \<open>unsigned\<close>), then widened. A depth is
  represented by its 32-bit pattern, which is all the key construction reads.
\<close>

definition make_key :: "dim3 \<Rightarrow> uint32_t \<Rightarrow> uint32_t \<Rightarrow> uint32_t \<Rightarrow> uint64_t" where
  "make_key grid y x depth = push_bit 32 (ucast (y * d3x grid + x)) OR ucast depth"

type_synonym binning_buffers = "uint64_t list \<times> uint32_t list"

text \<open>
  The inner loop \<open>for (int x = rect_min.x; x < rect_max.x; x++)\<close>. The loop variables are
  \<open>int\<close>, compared with \<open>unsigned\<close> bounds, hence compared as unsigned; they are kept as
  32-bit patterns.
\<close>

function dup_cols ::
  "dim3 \<Rightarrow> uint32_t \<Rightarrow> nat \<Rightarrow> uint32_t \<Rightarrow> uint32_t \<Rightarrow> uint32_t \<Rightarrow> uint32_t \<Rightarrow> binning_buffers
     \<Rightarrow> (uint32_t \<times> binning_buffers) option"
where
  "dup_cols grid depth idx y xmax x off bufs =
     (if x < xmax then
        (if unat off < length (fst bufs) \<and> unat off < length (snd bufs)
         then dup_cols grid depth idx y xmax (x + 1) (off + 1)
                ((fst bufs)[unat off := make_key grid y x depth],
                 (snd bufs)[unat off := of_nat idx])
         else None)
      else Some (off, bufs))"
  by pat_completeness auto
termination
proof (relation "measure (\<lambda>(grid, depth, idx, y, xmax, x, off, bufs). unat xmax - unat x)")
  show "wf (measure (\<lambda>(grid::dim3, depth::uint32_t, idx::nat, y::uint32_t, xmax::uint32_t,
               x::uint32_t, off::uint32_t, bufs::binning_buffers). unat xmax - unat x))"
    by simp
next
  fix grid :: dim3 and depth y xmax x off :: uint32_t and idx :: nat and bufs :: binning_buffers
  assume lt: "x < xmax"
  then have "unat x + unat (1 :: uint32_t) < 2 ^ LENGTH(32)"
    using unsigned_less [of xmax, where ?'a = nat] by (simp add: word_less_nat_alt)
  then have "unat (x + 1) = Suc (unat x)"
    by (simp add: unat_add_lem [THEN iffD1])
  with lt show "((grid, depth, idx, y, xmax, x + 1, off + 1,
                   (fst bufs)[unat off := make_key grid y x depth],
                   (snd bufs)[unat off := of_nat idx]),
                 grid, depth, idx, y, xmax, x, off, bufs)
                \<in> measure (\<lambda>(grid, depth, idx, y, xmax, x, off, bufs). unat xmax - unat x)"
    by (simp add: word_less_nat_alt)
qed

declare dup_cols.simps [simp del]

text \<open>The outer loop \<open>for (int y = rect_min.y; y < rect_max.y; y++)\<close>.\<close>

function dup_rows ::
  "dim3 \<Rightarrow> uint32_t \<Rightarrow> nat \<Rightarrow> uint32_t \<Rightarrow> uint32_t \<Rightarrow> uint32_t \<Rightarrow> uint32_t \<Rightarrow> uint32_t
     \<Rightarrow> binning_buffers \<Rightarrow> (uint32_t \<times> binning_buffers) option"
where
  "dup_rows grid depth idx xmin xmax ymax y off bufs =
     (if y < ymax then
        (case dup_cols grid depth idx y xmax xmin off bufs of
           None \<Rightarrow> None
         | Some (off', bufs') \<Rightarrow> dup_rows grid depth idx xmin xmax ymax (y + 1) off' bufs')
      else Some (off, bufs))"
  by pat_completeness auto
termination
proof (relation "measure (\<lambda>(grid, depth, idx, xmin, xmax, ymax, y, off, bufs). unat ymax - unat y)")
  show "wf (measure (\<lambda>(grid::dim3, depth::uint32_t, idx::nat, xmin::uint32_t, xmax::uint32_t,
               ymax::uint32_t, y::uint32_t, off::uint32_t, bufs::binning_buffers).
               unat ymax - unat y))"
    by simp
next
  fix grid :: dim3 and depth xmin xmax ymax y off off' :: uint32_t and idx :: nat
    and bufs bufs' :: binning_buffers and r
  assume lt: "y < ymax"
  then have "unat y + unat (1 :: uint32_t) < 2 ^ LENGTH(32)"
    using unsigned_less [of ymax, where ?'a = nat] by (simp add: word_less_nat_alt)
  then have "unat (y + 1) = Suc (unat y)"
    by (simp add: unat_add_lem [THEN iffD1])
  with lt show "((grid, depth, idx, xmin, xmax, ymax, y + 1, off', bufs'),
                 grid, depth, idx, xmin, xmax, ymax, y, off, bufs)
                \<in> measure (\<lambda>(grid, depth, idx, xmin, xmax, ymax, y, off, bufs). unat ymax - unat y)"
    by (simp add: word_less_nat_alt)
qed

declare dup_rows.simps [simp del]

text \<open>
  One thread of \<open>duplicateWithKeys\<close>. The arrays \<open>radii\<close>, \<open>offsets\<close>, \<open>points_xy\<close> (here the
  boxes) and \<open>depths\<close> are read at \<open>idx\<close> or \<open>idx - 1\<close>.
\<close>

definition duplicateWithKeys_thread ::
  "nat \<Rightarrow> tile_box list \<Rightarrow> uint32_t list \<Rightarrow> uint32_t list \<Rightarrow> int list \<Rightarrow> dim3
     \<Rightarrow> nat \<Rightarrow> binning_buffers \<Rightarrow> binning_buffers option"
where
  "duplicateWithKeys_thread P points_xy depths offsets radii grid idx bufs =
     (if P \<le> idx then Some bufs
      else do {
        r \<leftarrow> nth_opt radii idx;
        if 0 < r then do {
          off \<leftarrow> (if idx = 0 then Some 0 else nth_opt offsets (idx - 1));
          p \<leftarrow> nth_opt points_xy idx;
          depth \<leftarrow> nth_opt depths idx;
          res \<leftarrow> (case getRect p grid of (rect_min, rect_max) \<Rightarrow>
                    dup_rows grid depth idx (u2x rect_min) (u2x rect_max) (u2y rect_max)
                      (u2y rect_min) off bufs);
          Some (snd res)
        } else Some bufs
      })"

definition duplicateWithKeys ::
  "nat \<Rightarrow> tile_box list \<Rightarrow> uint32_t list \<Rightarrow> uint32_t list \<Rightarrow> int list \<Rightarrow> dim3
     \<Rightarrow> binning_buffers \<Rightarrow> binning_buffers option"
where
  "duplicateWithKeys P points_xy depths offsets radii grid bufs =
     run_threads (duplicateWithKeys_thread P points_xy depths offsets radii grid) (launched P) bufs"

section \<open>Tile range resolver: identifyTileRanges\<close>

definition set_x :: "uint2 list \<Rightarrow> nat \<Rightarrow> uint32_t \<Rightarrow> uint2 list option" where
  "set_x ranges t v =
     (if t < length ranges then Some (ranges[t := (ranges ! t)\<lparr>u2x := v\<rparr>]) else None)"

definition set_y :: "uint2 list \<Rightarrow> nat \<Rightarrow> uint32_t \<Rightarrow> uint2 list option" where
  "set_y ranges t v =
     (if t < length ranges then Some (ranges[t := (ranges ! t)\<lparr>u2y := v\<rparr>]) else None)"

text \<open>\<open>uint32_t currtile = key >> 32\<close>, used as an array index.\<close>

definition tile_of :: "uint64_t \<Rightarrow> nat" where
  "tile_of key = unat (ucast (drop_bit 32 key) :: uint32_t)"

definition depth_of :: "uint64_t \<Rightarrow> uint32_t" where
  "depth_of key = ucast key"

text \<open>
  One thread of \<open>identifyTileRanges\<close>. The locals \<open>count\<close>, \<open>row\<close>, \<open>col\<close> and \<open>numTilesX\<close>
  only feed a commented-out \<open>printf\<close>; \<open>count\<close> reads \<open>ranges[prevtile].x\<close>, a cell the thread
  has just written next to, and nothing is done with it.
\<close>

definition identifyTileRanges_thread ::
  "nat \<Rightarrow> uint64_t list \<Rightarrow> nat \<Rightarrow> uint2 list \<Rightarrow> uint2 list option"
where
  "identifyTileRanges_thread L point_list_keys idx ranges =
     (if L \<le> idx then Some ranges
      else do {
        key \<leftarrow> nth_opt point_list_keys idx;
        let currtile = tile_of key;
        ranges1 \<leftarrow>
          (if idx = 0 then set_x ranges currtile 0
           else do {
             prevkey \<leftarrow> nth_opt point_list_keys (idx - 1);
             let prevtile = tile_of prevkey;
             if currtile \<noteq> prevtile then do {
               ranges' \<leftarrow> set_y ranges prevtile (of_nat idx);
               set_x ranges' currtile (of_nat idx)
             } else Some ranges
           });
        if idx = L - 1 then set_y ranges1 currtile (of_nat L) else Some ranges1
      })"

definition identifyTileRanges :: "nat \<Rightarrow> uint64_t list \<Rightarrow> uint2 list \<Rightarrow> uint2 list option" where
  "identifyTileRanges L point_list_keys ranges =
     run_threads (identifyTileRanges_thread L point_list_keys) (launched L) ranges"

section \<open>Prefix sum and sort\<close>

fun inclusive_scan :: "uint32_t \<Rightarrow> uint32_t list \<Rightarrow> uint32_t list" where
  "inclusive_scan acc [] = []"
| "inclusive_scan acc (c # cs) = (acc + c) # inclusive_scan (acc + c) cs"

text \<open>
  Modelled from the spec: \<open>cub::DeviceScan::InclusiveSum\<close> is a routine of the CUB library and
  not part of the sources at hand. The spec calls it the ``inclusive running-total transform
  used to convert per-primitive counts into write offsets'', and the comment at its call in
  \<open>forward\<close> gives \<open>[2, 3, 0, 2, 1] -> [2, 5, 5, 7, 8]\<close>. It reads \<open>num_items\<close> entries of
  \<open>d_in\<close>; the sums are \<open>uint32_t\<close> and wrap.
\<close>

definition InclusiveSum :: "uint32_t list \<Rightarrow> nat \<Rightarrow> uint32_t list option" where
  "InclusiveSum d_in num_items =
     (if num_items \<le> length d_in then Some (inclusive_scan 0 (take num_items d_in)) else None)"

type_synonym key_value = "uint64_t \<times> uint32_t"

text \<open>One pass of a binary least-significant-digit radix sort: a stable split on bit \<open>b\<close>.\<close>

definition radix_pass :: "nat \<Rightarrow> key_value list \<Rightarrow> key_value list" where
  "radix_pass b ps = filter (\<lambda>p. \<not> bit (fst p) b) ps @ filter (\<lambda>p. bit (fst p) b) ps"

text \<open>
  Modelled from the spec: \<open>cub::DeviceRadixSort::SortPairs\<close> is a routine of the CUB library
  and not part of the sources at hand. The spec (4.5): ``Keys are sorted as unsigned 64-bit
  integers ascending using a radix sort limited to 32 + bit significant bits'', and the sort is
  stable. Only the key bits \<open>begin_bit \<le> b < end_bit\<close> are looked at.
\<close>

definition SortPairs :: "key_value list \<Rightarrow> nat \<Rightarrow> nat \<Rightarrow> key_value list" where
  "SortPairs pairs begin_bit end_bit = fold radix_pass [begin_bit ..< end_bit] pairs"

section \<open>Packed arena: the three state structures\<close>

text \<open>
  Modelled from the spec: \<open>obtain\<close> is a template of rasterizer\_impl.h, which is not part of
  the sources at hand. The spec (4.1): ``given a cursor into a byte buffer, a required element
  count, and a byte alignment, returns a typed pointer at the next aligned offset and advances
  the cursor''. Addresses are 64-bit; the result is the pointer and the advanced cursor. (The name \<open>obtain\<close> is taken in Isabelle.)
\<close>

definition obtain_ptr :: "size_t \<Rightarrow> size_t \<Rightarrow> size_t \<Rightarrow> size_t \<Rightarrow> size_t \<times> size_t" where
  "obtain_ptr chunk count elem_size alignment =
     (let ptr = (chunk + alignment - 1) AND NOT (alignment - 1)
      in (ptr, ptr + count * elem_size))"

text \<open>
  The views hold addresses. Element sizes, as the arrays are used in this file: \<open>float\<close>,
  \<open>int\<close> and \<open>uint32_t\<close> 4 bytes, \<open>bool\<close> and \<open>char\<close> 1, \<open>float2\<close>, \<open>uint2\<close> and
  \<open>uint64_t\<close> 8, \<open>float4\<close> 16.
\<close>

record GeometryState =
  geom_scan_size :: size_t
  geom_depths :: size_t
  geom_clamped :: size_t
  geom_internal_radii :: size_t
  geom_means2D :: size_t
  geom_cov3D :: size_t
  geom_conic_opacity :: size_t
  geom_rgb :: size_t
  geom_tiles_touched :: size_t
  geom_scanning_space :: size_t
  geom_point_offsets :: size_t

record ImageState =
  img_accum_alpha :: size_t
  img_n_contrib :: size_t
  img_ranges :: size_t

record BinningState =
  bin_sorting_size :: size_t
  bin_point_list :: size_t
  bin_point_list_unsorted :: size_t
  bin_point_list_keys :: size_t
  bin_point_list_keys_unsorted :: size_t
  bin_list_sorting_space :: size_t

text \<open>
  The calls of \<open>InclusiveSum\<close> and \<open>SortPairs\<close> with a null temporary storage only return
  the number of scratch bytes that CUB wants for \<open>P\<close> items; that number is a parameter,
  \<open>temp_bytes\<close>.
\<close>

definition GeometryState_fromChunk ::
  "(size_t \<Rightarrow> size_t) \<Rightarrow> size_t \<Rightarrow> size_t \<Rightarrow> GeometryState \<times> size_t"
where
  "GeometryState_fromChunk temp_bytes chunk P =
     (case obtain_ptr chunk P 4 128 of (depths, c1) \<Rightarrow>
      case obtain_ptr c1 (P * 3) 1 128 of (clamped, c2) \<Rightarrow>
      case obtain_ptr c2 P 4 128 of (internal_radii, c3) \<Rightarrow>
      case obtain_ptr c3 P 8 128 of (means2D, c4) \<Rightarrow>
      case obtain_ptr c4 (P * 6) 4 128 of (cov3D, c5) \<Rightarrow>
      case obtain_ptr c5 P 16 128 of (conic_opacity, c6) \<Rightarrow>
      case obtain_ptr c6 (P * 3) 4 128 of (rgb, c7) \<Rightarrow>
      case obtain_ptr c7 P 4 128 of (tiles_touched, c8) \<Rightarrow>
      case obtain_ptr c8 (temp_bytes P) 1 128 of (scanning_space, c9) \<Rightarrow>
      case obtain_ptr c9 P 4 128 of (point_offsets, c10) \<Rightarrow>
        (\<lparr>geom_scan_size = temp_bytes P, geom_depths = depths, geom_clamped = clamped,
          geom_internal_radii = internal_radii, geom_means2D = means2D, geom_cov3D = cov3D,
          geom_conic_opacity = conic_opacity, geom_rgb = rgb,
          geom_tiles_touched = tiles_touched, geom_scanning_space = scanning_space,
          geom_point_offsets = point_offsets\<rparr>, c10))"

definition ImageState_fromChunk :: "size_t \<Rightarrow> size_t \<Rightarrow> ImageState \<times> size_t" where
  "ImageState_fromChunk chunk N =
     (case obtain_ptr chunk N 4 128 of (accum_alpha, c1) \<Rightarrow>
      case obtain_ptr c1 N 4 128 of (n_contrib, c2) \<Rightarrow>
      case obtain_ptr c2 N 8 128 of (ranges, c3) \<Rightarrow>
        (\<lparr>img_accum_alpha = accum_alpha, img_n_contrib = n_contrib, img_ranges = ranges\<rparr>, c3))"

definition BinningState_fromChunk ::
  "(size_t \<Rightarrow> size_t) \<Rightarrow> size_t \<Rightarrow> size_t \<Rightarrow> BinningState \<times> size_t"
where
  "BinningState_fromChunk temp_bytes chunk P =
     (case obtain_ptr chunk P 4 128 of (point_list, c1) \<Rightarrow>
      case obtain_ptr c1 P 4 128 of (point_list_unsorted, c2) \<Rightarrow>
      case obtain_ptr c2 P 8 128 of (point_list_keys, c3) \<Rightarrow>
      case obtain_ptr c3 P 8 128 of (point_list_keys_unsorted, c4) \<Rightarrow>
      case obtain_ptr c4 (temp_bytes P) 1 128 of (list_sorting_space, c5) \<Rightarrow>
        (\<lparr>bin_sorting_size = temp_bytes P, bin_point_list = point_list,
          bin_point_list_unsorted = point_list_unsorted, bin_point_list_keys = point_list_keys,
          bin_point_list_keys_unsorted = point_list_keys_unsorted,
          bin_list_sorting_space = list_sorting_space\<rparr>, c5))"

text \<open>
  Modelled from the spec: \<open>required\<close> is a template of rasterizer\_impl.h, which is not part
  of the sources at hand. The spec (4.1): ``A parallel dry-run mode (chunk pointer = null) only
  accumulates the total byte size, used to let the caller pre-size and allocate the backing
  buffer''.
\<close>

definition required :: "(size_t \<Rightarrow> size_t \<Rightarrow> 'state \<times> size_t) \<Rightarrow> size_t \<Rightarrow> size_t" where
  "required fromChunk n = snd (fromChunk 0 n)"

text \<open>
  For comparing a carve with the dry run: the first 128-byte boundary at or after an address,
  and a view moved to a base address.
\<close>

definition align128 :: "size_t \<Rightarrow> size_t" where
  "align128 c = (c + 128 - 1) AND NOT (128 - 1)"




section \<open>The blend stage\<close>

text \<open>
  Colours and transmittances are \<open>float\<close> in the program and exact rationals here; no claim
  below depends on rounding. A pixel accumulates a colour per channel and keeps the remaining
  transmittance.
\<close>

record pixel_state =
  px_color :: "rat list"
  px_T :: rat

text \<open>What one primitive does to the state of the pixel \<open>pix\<close>: the numerical kernel.\<close>

type_synonym blend_fn = "nat \<Rightarrow> uint32_t \<Rightarrow> pixel_state \<Rightarrow> pixel_state"

text \<open>
  Modelled from the spec: \<open>FORWARD::render\<close> is defined in forward.cu, which is not part of
  the sources at hand. The spec: ``blend(tile ranges, sorted primitive index list, per-primitive
  screen attributes, background) -> output image'', one thread group per tile, and ``each group
  serially walks its tile's sorted instance range'' of an ``order-dependent alpha-compositing
  model'' with a ``per-pixel remaining transmittance''; with no instance the result is a
  ``background-only output image''. A pixel starts with no colour and transmittance 1, the
  primitives of its tile's range are blended in list order, and what transmittance remains lets
  the background through.
\<close>

definition render_pixel ::
  "blend_fn \<Rightarrow> uint2 \<Rightarrow> uint32_t list \<Rightarrow> rat list \<Rightarrow> nat \<Rightarrow> rat list option"
where
  "render_pixel blend rng point_list background pix =
     (let start = unat (u2x rng); stop = unat (u2y rng)
      in if stop \<le> start then Some background
         else if length point_list < stop then None
         else
           (let s = fold (blend pix) (take (stop - start) (drop start point_list))
                      \<lparr>px_color = map (\<lambda>b. 0) background, px_T = 1\<rparr>
            in Some (map2 (\<lambda>c b. c + px_T s * b) (px_color s) background)))"

text \<open>The tile of a pixel: tiles are blocks of \<open>BLOCK_X\<close> by \<open>BLOCK_Y\<close> pixels, numbered row by row.\<close>

definition tile_of_pixel :: "nat \<Rightarrow> nat \<Rightarrow> dim3 \<Rightarrow> nat \<Rightarrow> nat \<Rightarrow> nat" where
  "tile_of_pixel block_x block_y grid width pix =
     ((pix div width) div block_y) * unat (d3x grid) + (pix mod width) div block_x"

fun render_pixels ::
  "(nat \<Rightarrow> nat) \<Rightarrow> blend_fn \<Rightarrow> uint2 list \<Rightarrow> uint32_t list \<Rightarrow> rat list \<Rightarrow> nat list
     \<Rightarrow> rat list list option"
where
  "render_pixels tile blend ranges point_list background [] = Some []"
| "render_pixels tile blend ranges point_list background (pix # rest) =
     (case nth_opt ranges (tile pix) of
        None \<Rightarrow> None
      | Some rng \<Rightarrow>
          (case render_pixel blend rng point_list background pix of
             None \<Rightarrow> None
           | Some c \<Rightarrow>
               (case render_pixels tile blend ranges point_list background rest of
                  None \<Rightarrow> None
                | Some cs \<Rightarrow> Some (c # cs))))"

definition render ::
  "nat \<Rightarrow> nat \<Rightarrow> dim3 \<Rightarrow> nat \<Rightarrow> nat \<Rightarrow> blend_fn \<Rightarrow> uint2 list \<Rightarrow> uint32_t list \<Rightarrow> rat list
     \<Rightarrow> rat list list option"
where
  "render block_x block_y grid width height blend ranges point_list background =
     render_pixels (tile_of_pixel block_x block_y grid width) blend ranges point_list background
       [0 ..< width * height]"

section \<open>The forward orchestrator\<close>

text \<open>
  What \<open>forward\<close> does, in order: the calls of the three buffer functions of the caller, which
  run on the host, and the work it sends to the device.
\<close>

datatype event =
  GeometryBuffer size_t
  | ImageBuffer size_t
  | BinningBuffer size_t
  | Preprocess
  | ScanOffsets
  | ReadNumRendered
  | DuplicateWithKeys
  | SortInstances
  | MemsetRanges
  | IdentifyTileRanges
  | Render

fun device_work :: "event \<Rightarrow> bool" where
  "device_work (GeometryBuffer n) = False"
| "device_work (ImageBuffer n) = False"
| "device_work (BinningBuffer n) = False"
| "device_work e = True"

text \<open>
  The macros \<open>NUM_CHANNELS\<close>, \<open>BLOCK_X\<close> and \<open>BLOCK_Y\<close> of config.h and the scratch sizes
  that CUB asks for are parameters.
\<close>

record config =
  NUM_CHANNELS :: nat
  BLOCK_X :: int
  BLOCK_Y :: int
  scan_temp_bytes :: "size_t \<Rightarrow> size_t"
  sort_temp_bytes :: "size_t \<Rightarrow> size_t"

text \<open>
  \<open>width\<close>, \<open>height\<close> and the block sizes are \<open>int\<close>: sums and products of them are
  computed in 32 bits and wrap round (two's complement). C's \<open>/\<close> on \<open>int\<close> truncates towards
  zero.
\<close>

definition int32 :: "int \<Rightarrow> int" where
  "int32 k = sint (word_of_int k :: 32 word)"

definition c_div :: "int \<Rightarrow> int \<Rightarrow> int" where
  "c_div a b = sgn a * sgn b * (\<bar>a\<bar> div \<bar>b\<bar>)"

text \<open>
  \<open>dim3 tile_grid((width + BLOCK_X - 1) / BLOCK_X, (height + BLOCK_Y - 1) / BLOCK_Y, 1)\<close>:
  the quotients are \<open>int\<close> and become the \<open>unsigned\<close> members of \<open>dim3\<close>.
\<close>

definition tile_grid_of :: "config \<Rightarrow> int \<Rightarrow> int \<Rightarrow> dim3" where
  "tile_grid_of cfg width height =
     \<lparr>d3x = word_of_int (c_div (int32 (width + BLOCK_X cfg - 1)) (BLOCK_X cfg)),
      d3y = word_of_int (c_div (int32 (height + BLOCK_Y cfg - 1)) (BLOCK_Y cfg))\<rparr>"

text \<open>
  What the projection stage \<open>FORWARD::preprocess\<close> (forward.cu, an external numerical kernel)
  leaves in the geometry state: per primitive the radius, the bounding box in tile coordinates
  (for \<open>means2D\<close>), the bit pattern of the depth and the number of tiles touched.
\<close>

record geometry =
  pre_radii :: "int list"
  pre_points_xy :: "tile_box list"
  pre_depths :: "uint32_t list"
  pre_tiles_touched :: "uint32_t list"

text \<open>The buffers that the caller hands out are not initialised: their contents before the first write.\<close>

record junk =
  junk_keys :: "nat \<Rightarrow> uint64_t"
  junk_values :: "nat \<Rightarrow> uint32_t"
  junk_ranges :: "nat \<Rightarrow> uint2"

text \<open>
  What a call that returns leaves behind: the returned count, \<open>point_offsets\<close> as the scan
  left it, and the arrays that the kernels after the read-back work on. The latter are there
  only if no kernel accessed memory outside its arrays; otherwise \<open>forward\<close> still returns
  the count, and \<open>res_device\<close> is \<open>None\<close>.
\<close>

record fwd_device =
  res_point_list_keys :: "uint64_t list"
  res_point_list :: "uint32_t list"
  res_ranges :: "uint2 list"
  res_out_color :: "rat list list"

record fwd_result =
  res_num_rendered :: int
  res_point_offsets :: "uint32_t list"
  res_device :: "fwd_device option"

text \<open>\<open>cudaMemcpy(&num_rendered, geomState.point_offsets + P - 1, sizeof(int), ...)\<close>\<close>

definition read_at :: "'a list \<Rightarrow> int \<Rightarrow> 'a option" where
  "read_at xs i = (if 0 \<le> i \<and> i < int (length xs) then Some (xs ! nat i) else None)"

text \<open>
  \<open>cudaMemset(imgState.ranges, 0, tile_grid.x * tile_grid.y * sizeof(uint2))\<close> on the table of
  \<open>width * height\<close> entries carved by \<open>ImageState::fromChunk\<close>. The product of the grid
  extents is \<open>unsigned\<close> and wraps in 32 bits.
\<close>

definition memset_ranges :: "(nat \<Rightarrow> uint2) \<Rightarrow> nat \<Rightarrow> dim3 \<Rightarrow> uint2 list option" where
  "memset_ranges uninit N grid =
     (let n = unat (d3x grid * d3y grid)
      in if n \<le> N then Some (replicate n \<lparr>u2x = 0, u2y = 0\<rparr> @ map uninit [n ..< N]) else None)"

text \<open>
  The sequence of \<open>forward\<close>. Nothing between the read-back of the count and \<open>return
  num_rendered\<close> can stop it: a negative count goes to \<open>required\<close>, \<open>fromChunk\<close> and
  \<open>SortPairs\<close> as it is, where it stands for no meaningful size, and a kernel that leaves its
  arrays goes unnoticed; in both cases nothing is said about device memory. The number of
  pixels \<open>width * height\<close> is an \<open>int\<close> product. The read-back of the count is the one
  access of the host to an array: with no entry \<open>P - 1\<close> in \<open>point_offsets\<close> it is outside.
\<close>

definition forward ::
  "config \<Rightarrow> nat \<Rightarrow> int \<Rightarrow> int \<Rightarrow> 'colors option \<Rightarrow> rat list \<Rightarrow> geometry \<Rightarrow> junk \<Rightarrow> blend_fn
     \<Rightarrow> event list \<times> (error + fwd_result)"
where
  "forward cfg P width height colors_precomp background geom mem blend =
     (let tile_grid = tile_grid_of cfg width height;
          ev0 = [GeometryBuffer (required (GeometryState_fromChunk (scan_temp_bytes cfg)) (of_nat P)),
                 ImageBuffer (required ImageState_fromChunk (of_int (int32 (width * height))))]
      in
      if NUM_CHANNELS cfg \<noteq> 3 \<and> colors_precomp = None then (ev0, Inl ConfigError)
      else
        (let ev1 = ev0 @ [Preprocess, ScanOffsets, ReadNumRendered] in
         case InclusiveSum (pre_tiles_touched geom) P of
           None \<Rightarrow> (ev1, Inl OutOfBounds)
         | Some point_offsets \<Rightarrow>
        (case read_at point_offsets (int P - 1) of
           None \<Rightarrow> (ev1, Inl OutOfBounds)
         | Some last_offset \<Rightarrow>
        (let num_rendered = sint last_offset;
             R = nat num_rendered;
             ev = ev1 @ [BinningBuffer
                          (required (BinningState_fromChunk (sort_temp_bytes cfg)) (of_int num_rendered)),
                         DuplicateWithKeys, SortInstances, MemsetRanges]
                      @ (if 0 < num_rendered then [IdentifyTileRanges] else []) @ [Render];
             device =
               (if num_rendered < 0 then None
                else
                  case duplicateWithKeys P (pre_points_xy geom) (pre_depths geom) point_offsets
                         (pre_radii geom) tile_grid
                         (map (junk_keys mem) [0 ..< R], map (junk_values mem) [0 ..< R]) of
                    None \<Rightarrow> None
                  | Some (keys_unsorted, values_unsorted) \<Rightarrow>
                 (let sorted_pairs = SortPairs (zip keys_unsorted values_unsorted) 0
                                       (nat (sort_end_bit tile_grid)) in
                  case memset_ranges (junk_ranges mem) (nat (int32 (width * height))) tile_grid of
                    None \<Rightarrow> None
                  | Some ranges0 \<Rightarrow>
                 (case (if 0 < num_rendered
                        then identifyTileRanges R (map fst sorted_pairs) ranges0
                        else Some ranges0) of
                    None \<Rightarrow> None
                  | Some ranges \<Rightarrow>
                 (case render (nat (BLOCK_X cfg)) (nat (BLOCK_Y cfg)) tile_grid (nat width)
                         (nat height) blend ranges (map snd sorted_pairs) background of
                    None \<Rightarrow> None
                  | Some img \<Rightarrow>
                      Some \<lparr>res_point_list_keys = map fst sorted_pairs,
                            res_point_list = map snd sorted_pairs,
                            res_ranges = ranges, res_out_color = img\<rparr>))))
         in (ev, Inr \<lparr>res_num_rendered = num_rendered, res_point_offsets = point_offsets,
                      res_device = device\<rparr>)))))"

section \<open>Notions for stating the results\<close>

text \<open>A buffer in which the cells from \<open>off\<close> on hold \<open>xs\<close>, one after the other.\<close>

definition write_run :: "'a list \<Rightarrow> nat \<Rightarrow> 'a list \<Rightarrow> 'a list" where
  "write_run buf off xs = take off buf @ xs @ drop (off + length xs) buf"

text \<open>
  The values that a loop variable takes from \<open>lo\<close> while it is below \<open>hi\<close>, and the tiles
  \<open>(y, x)\<close> of a rectangle in the order in which the two loops of \<open>duplicateWithKeys\<close>
  visit them.
\<close>

definition word_range :: "uint32_t \<Rightarrow> uint32_t \<Rightarrow> uint32_t list" where
  "word_range lo hi = map (\<lambda>j. lo + of_nat j) [0 ..< unat hi - unat lo]"

definition rect_tiles :: "uint2 \<Rightarrow> uint2 \<Rightarrow> (uint32_t \<times> uint32_t) list" where
  "rect_tiles rect_min rect_max =
     concat (map (\<lambda>y. map (\<lambda>x. (y, x)) (word_range (u2x rect_min) (u2x rect_max)))
                 (word_range (u2y rect_min) (u2y rect_max)))"

text \<open>The tiles, keys and values that primitive \<open>i\<close> contributes.\<close>

definition prim_tiles :: "dim3 \<Rightarrow> int list \<Rightarrow> tile_box list \<Rightarrow> nat \<Rightarrow> (uint32_t \<times> uint32_t) list" where
  "prim_tiles grid radii points_xy i =
     (if 0 < radii ! i
      then (case getRect (points_xy ! i) grid of (rect_min, rect_max) \<Rightarrow> rect_tiles rect_min rect_max)
      else [])"

definition prim_keys ::
  "dim3 \<Rightarrow> int list \<Rightarrow> tile_box list \<Rightarrow> uint32_t list \<Rightarrow> nat \<Rightarrow> uint64_t list" where
  "prim_keys grid radii points_xy depths i =
     map (\<lambda>(y, x). make_key grid y x (depths ! i)) (prim_tiles grid radii points_xy i)"

definition prim_values :: "dim3 \<Rightarrow> int list \<Rightarrow> tile_box list \<Rightarrow> nat \<Rightarrow> uint32_t list" where
  "prim_values grid radii points_xy i = map (\<lambda>t. of_nat i) (prim_tiles grid radii points_xy i)"

text \<open>
  The contract of the projection stage on the touch counts: the count of a primitive is the
  number of tiles of its rectangle, and 0 for a radius of 0 or less.
\<close>

definition tiles_touched_ok :: "dim3 \<Rightarrow> geometry \<Rightarrow> nat \<Rightarrow> bool" where
  "tiles_touched_ok grid geom P \<longleftrightarrow>
     (\<forall>i \<in> {0 ..< P}. unat (pre_tiles_touched geom ! i)
        = length (prim_tiles grid (pre_radii geom) (pre_points_xy geom) i))"

definition geometry_sized :: "geometry \<Rightarrow> nat \<Rightarrow> bool" where
  "geometry_sized geom P \<longleftrightarrow>
     length (pre_radii geom) = P \<and> length (pre_points_xy geom) = P
     \<and> length (pre_depths geom) = P \<and> length (pre_tiles_touched geom) = P"

section \<open>A worked example\<close>

text \<open>
  An image of 17 by 1 pixels, hence two tiles. The first primitive covers both tiles at depth
  2.0, the second is culled, the third covers the second tile at depth 1.0.
\<close>

definition example_cfg :: config where
  "example_cfg = \<lparr>NUM_CHANNELS = 3, BLOCK_X = 16, BLOCK_Y = 16,
     scan_temp_bytes = (\<lambda>n. 0), sort_temp_bytes = (\<lambda>n. 0)\<rparr>"

definition example_geom :: geometry where
  "example_geom = \<lparr>pre_radii = [2, 0, 1],
     pre_points_xy = [\<lparr>box_min_x = 0, box_min_y = 0, box_max_x = 2, box_max_y = 1\<rparr>,
                      \<lparr>box_min_x = 5, box_min_y = 5, box_max_x = 5, box_max_y = 5\<rparr>,
                      \<lparr>box_min_x = 1, box_min_y = 0, box_max_x = 3, box_max_y = 1\<rparr>],
     pre_depths = [0x40000000, 0, 0x3F800000],
     pre_tiles_touched = [2, 0, 1]\<rparr>"

definition example_mem :: junk where
  "example_mem = \<lparr>junk_keys = (\<lambda>i. 7), junk_values = (\<lambda>i. 9),
     junk_ranges = (\<lambda>i. \<lparr>u2x = 3, u2y = 4\<rparr>)\<rparr>"

definition example_blend :: blend_fn where
  "example_blend pix i s = s\<lparr>px_T := px_T s / 2\<rparr>"

text \<open>
  An image of 32768 by 32768 pixels, hence 2048 by 2048 tiles, and 1024 primitives that each
  cover all of them.
\<close>

definition overflow_geom :: geometry where
  "overflow_geom = \<lparr>pre_radii = replicate 1024 1,
     pre_points_xy = replicate 1024 \<lparr>box_min_x = 0, box_min_y = 0, box_max_x = 2048, box_max_y = 2048\<rparr>,
     pre_depths = replicate 1024 0x3F800000,
     pre_tiles_touched = replicate 1024 0x400000\<rparr>"

text \<open>The same image with a single primitive that is culled.\<close>

definition culled_geom :: geometry where
  "culled_geom = \<lparr>pre_radii = [0],
     pre_points_xy = [\<lparr>box_min_x = 5, box_min_y = 5, box_max_x = 5, box_max_y = 5\<rparr>],
     pre_depths = [0],
     pre_tiles_touched = [0]\<rparr>"

text \<open>
  The state of the range table when the threads \<open>0, \<dots>, k - 1\<close> of \<open>identifyTileRanges\<close>
  have run on the tiles \<open>ts\<close> of a sorted key list: a tile seen so far has its start, the
  number of instances of smaller tiles, and, unless it is the tile of instance \<open>k - 1\<close> with
  more instances to come, its end, the number of instances of tiles up to it.
\<close>

definition ranges_after :: "nat \<Rightarrow> nat list \<Rightarrow> uint2 list \<Rightarrow> nat \<Rightarrow> uint2" where
  "ranges_after k ts ranges0 t =
     (if t \<in> set (take k ts)
      then \<lparr>u2x = of_nat (length (filter (\<lambda>u. u < t) ts)),
            u2y = (if k = length ts \<or> t \<noteq> ts ! (k - 1)
                   then of_nat (length (filter (\<lambda>u. u \<le> t) ts))
                   else u2y (ranges0 ! t))\<rparr>
      else ranges0 ! t)"

text \<open>
  What thread \<open>k\<close> of \<open>L\<close> does to a table given as a function of the tile, when
  instance \<open>k\<close> has the tile \<open>c\<close> and instance \<open>k - 1\<close> the tile \<open>p\<close>.
\<close>

definition range_update :: "nat \<Rightarrow> nat \<Rightarrow> nat \<Rightarrow> nat \<Rightarrow> (nat \<Rightarrow> uint2) \<Rightarrow> nat \<Rightarrow> uint2" where
  "range_update k L c p f =
     (let f' = f(p := (f p)\<lparr>u2y := of_nat k\<rparr>);
          f1 = (if k = 0 then f(c := (f c)\<lparr>u2x := 0\<rparr>)
                else if c \<noteq> p then f'(c := (f' c)\<lparr>u2x := of_nat k\<rparr>)
                else f)
      in if k = L - 1 then f1(c := (f1 c)\<lparr>u2y := of_nat L\<rparr>) else f1)"

chapter \<open>Verification\<close>


section \<open>getHigherMsb computes the bit length\<close>

lemma getHigherMsb_loop_step:
  "1 < step \<Longrightarrow> getHigherMsb_loop n msb step =
     (if drop_bit (unat msb) n \<noteq> 0 then getHigherMsb_loop n (msb + step div 2) (step div 2)
      else getHigherMsb_loop n (msb - step div 2) (step div 2))"
  by (subst getHigherMsb_loop.simps) (simp add: Let_def)

lemma getHigherMsb_loop_done: "\<not> 1 < step \<Longrightarrow> getHigherMsb_loop n msb step = msb"
  by (subst getHigherMsb_loop.simps) simp

lemma drop_bit_nonzero_iff:
  fixes n :: uint32_t
  shows "drop_bit m n \<noteq> 0 \<longleftrightarrow> m < floorlog 2 (unat n)"
proof -
  have "drop_bit m n = 0 \<longleftrightarrow> unat (drop_bit m n) = 0"
    by (simp add: unat_eq_0)
  also have "\<dots> \<longleftrightarrow> unat n < 2 ^ m"
    by (simp only: unat_drop_bit_eq) (simp add: drop_bit_eq_div div_eq_0_iff)
  also have "\<dots> \<longleftrightarrow> floorlog 2 (unat n) \<le> m"
    by (simp add: floorlog_le_iff)
  finally show ?thesis by auto
qed

lemma floorlog_unat_le: "floorlog 2 (unat (n :: uint32_t)) \<le> 32"
proof -
  have "unat n < 2 ^ 32" using unsigned_less [of n] by simp
  then show ?thesis by (simp add: floorlog_le_iff)
qed

lemma getHigherMsb_search:
  fixes n :: uint32_t
  assumes "l \<le> 32" and "\<And>m. drop_bit m n \<noteq> 0 \<longleftrightarrow> m < l"
  shows "getHigherMsb n = of_nat (max 1 l)"
proof -
  from assms(1) consider "l = 0" | "l = 1" | "l = 2" | "l = 3" | "l = 4" | "l = 5" | "l = 6" | "l = 7"
    | "l = 8" | "l = 9" | "l = 10" | "l = 11" | "l = 12" | "l = 13" | "l = 14" | "l = 15"
    | "l = 16" | "l = 17" | "l = 18" | "l = 19" | "l = 20" | "l = 21" | "l = 22" | "l = 23"
    | "l = 24" | "l = 25" | "l = 26" | "l = 27" | "l = 28" | "l = 29" | "l = 30" | "l = 31"
    | "l = 32"
    by atomize_elim arith
  then show ?thesis
    by cases (simp_all add: getHigherMsb_def getHigherMsb_loop_step getHigherMsb_loop_done assms(2))
qed

lemma getHigherMsb_floorlog:
  "getHigherMsb n = of_nat (max 1 (floorlog 2 (unat n)))"
  by (rule getHigherMsb_search [OF floorlog_unat_le drop_bit_nonzero_iff])

lemma sint_getHigherMsb: "sint (getHigherMsb n) = int (max 1 (floorlog 2 (unat n)))"
proof -
  have "max 1 (floorlog 2 (unat n)) \<le> 32"
    using floorlog_unat_le [of n] by simp
  then have "sint (word_of_nat (max 1 (floorlog 2 (unat n))) :: uint32_t)
      = int (max 1 (floorlog 2 (unat n)))"
    by (simp add: signed_of_nat signed_take_bit_int_eq_self)
  then show ?thesis by (simp add: getHigherMsb_floorlog)
qed

lemma log2_real_nonneg: "0 < n \<Longrightarrow> 0 \<le> log 2 (real n)"
  by simp

text \<open>
  C5, as stated: the number of key bits handed to the sort is 32 plus the floor of the binary
  logarithm of the number of tiles. It fails for a grid of a single tile, where 33 bits are
  sorted.
\<close>

theorem sort_end_bit_single_tile:
  "sort_end_bit \<lparr>d3x = 1, d3y = 1\<rparr> \<noteq> 32 + \<lfloor>log 2 (real (unat ((1 :: uint32_t) * 1)))\<rfloor>"
  by (simp add: sort_end_bit_def getHigherMsb_def getHigherMsb_loop_step getHigherMsb_loop_done)

text \<open>
  C5, amended: \<open>getHigherMsb\<close> returns the position after the highest set bit, so the sort
  gets 32 plus the bit length of the 32-bit product \<open>grid.x * grid.y\<close>, that is
  \<open>32 + floor(log2(grid.x * grid.y)) + 1\<close>, and 33 when the product is 0.
\<close>

theorem sort_end_bit_bit_length:
  "sort_end_bit g =
     32 + (if d3x g * d3y g = 0 then 1 else \<lfloor>log 2 (real (unat (d3x g * d3y g)))\<rfloor> + 1)"
proof (cases "d3x g * d3y g = 0")
  case True
  then show ?thesis
    by (simp add: sort_end_bit_def sint_getHigherMsb floorlog_def)
next
  case False
  then have pos: "0 < unat (d3x g * d3y g)"
    by (simp add: unat_gt_0)
  then have "0 \<le> log 2 (real (unat (d3x g * d3y g)))"
    by (rule log2_real_nonneg)
  then show ?thesis
    using False pos by (simp add: sort_end_bit_def sint_getHigherMsb floorlog_def)
qed

theorem sort_end_bit_bit_length_witness:
  "sort_end_bit \<lparr>d3x = 2, d3y = 2\<rparr> = 35"
  using sort_end_bit_bit_length [of "\<lparr>d3x = 2, d3y = 2\<rparr>"]
  by (simp add: sort_end_bit_def getHigherMsb_def getHigherMsb_loop_step getHigherMsb_loop_done)


section \<open>The prefix sum\<close>

lemma length_inclusive_scan [simp]: "length (inclusive_scan acc cs) = length cs"
  by (induction cs arbitrary: acc) simp_all

lemma InclusiveSum_Some:
  "P \<le> length cs \<Longrightarrow> InclusiveSum cs P = Some (inclusive_scan 0 (take P cs))"
  by (simp add: InclusiveSum_def)

section \<open>Configuration errors\<close>

text \<open>
  C8: with a channel count other than 3 and no precomputed colours, \<open>forward\<close> throws, and by
  then it has only called the two buffer functions of the caller: nothing was sent to the device.
\<close>

theorem forward_config_error:
  assumes "NUM_CHANNELS cfg \<noteq> 3" and "colors_precomp = None"
  shows "snd (forward cfg P width height colors_precomp background geom mem blend) = Inl ConfigError
    \<and> fst (forward cfg P width height colors_precomp background geom mem blend)
        = [GeometryBuffer (required (GeometryState_fromChunk (scan_temp_bytes cfg)) (of_nat P)),
           ImageBuffer (required ImageState_fromChunk (of_int (int32 (width * height))))]
    \<and> (\<forall>e \<in> set (fst (forward cfg P width height colors_precomp background geom mem blend)).
          \<not> device_work e)"
  using assms by (simp add: forward_def Let_def)

theorem forward_config_error_witness:
  "snd (forward \<lparr>NUM_CHANNELS = 4, BLOCK_X = 16, BLOCK_Y = 16,
          scan_temp_bytes = (\<lambda>n. 0), sort_temp_bytes = (\<lambda>n. 0)\<rparr> 1 16 16 (None :: unit option) [0, 0, 0, 0]
          \<lparr>pre_radii = [0], pre_points_xy = [\<lparr>box_min_x = 0, box_min_y = 0, box_max_x = 0, box_max_y = 0\<rparr>],
            pre_depths = [0], pre_tiles_touched = [0]\<rparr>
          \<lparr>junk_keys = (\<lambda>i. 0), junk_values = (\<lambda>i. 0), junk_ranges = (\<lambda>i. \<lparr>u2x = 0, u2y = 0\<rparr>)\<rparr>
          (\<lambda>pix i s. s)) = Inl ConfigError"
  using forward_config_error [of "\<lparr>NUM_CHANNELS = 4, BLOCK_X = 16, BLOCK_Y = 16,
          scan_temp_bytes = (\<lambda>n. 0), sort_temp_bytes = (\<lambda>n. 0)\<rparr>" "None :: unit option"]
  by simp

section \<open>Reading back the instance count\<close>



section \<open>The arena: carve against dry run\<close>

lemma and_not_mask_eq_diff:
  fixes w :: "'a::len word"
  shows "w AND NOT (mask n) = w - take_bit n w"
proof -
  have "w - take_bit n w = w AND NOT (take_bit n w)"
    by (rule disjunctive_diff_eq_and_not) (auto simp: bit_eq_iff bit_simps)
  also have "\<dots> = w AND NOT (mask n)"
    by (auto simp: bit_eq_iff bit_simps)
  finally show ?thesis by simp
qed

lemma align128_mask: "align128 c = (c + 127) AND NOT (mask 7)"
proof -
  have a: "c + 128 - 1 = c + 127"
    by simp
  have b: "(128 - 1 :: size_t) = mask 7"
    by (simp add: mask_eq_exp_minus_1)
  show ?thesis
    unfolding align128_def a b ..
qed

lemma align128_eq: "align128 c = (c + 127) - take_bit 7 (c + 127)"
  by (simp only: align128_mask and_not_mask_eq_diff)

lemma take_bit_align128 [simp]: "take_bit 7 (align128 c) = 0"
  unfolding align128_mask by (auto simp: bit_eq_iff bit_simps)

lemma word_take_bit_add:
  fixes a b :: "'a::len word"
  shows "take_bit n (a + b) = take_bit n (take_bit n a + take_bit n b)"
  by transfer (simp add: take_bit_eq_mod mod_simps min_def)

lemma align128_add:
  assumes "take_bit 7 a = 0"
  shows "align128 (a + x) = a + align128 x"
proof -
  have "take_bit 7 (a + (x + 127)) = take_bit 7 (take_bit 7 a + take_bit 7 (x + 127))"
    by (rule word_take_bit_add)
  also have "\<dots> = take_bit 7 (x + 127)"
    using assms by simp
  finally have "take_bit 7 (a + x + 127) = take_bit 7 (x + 127)"
    by (simp only: add.assoc)
  then show ?thesis
    by (simp add: align128_eq)
qed

lemma align128_0 [simp]: "align128 0 = 0"
  by (simp add: align128_def)


lemma align128_base_add:
  "align128 (align128 c + x) = align128 c + align128 x"
  by (rule align128_add) simp


lemma align128_idem: "align128 (align128 c) = align128 c"
  using align128_base_add [of c 0] by simp





lemma align128_padding: "unat (align128 c - c) < 128"
proof -
  have le: "take_bit 7 (c + 127) \<le> (127 :: size_t)"
  proof -
    have "unat (take_bit 7 (c + 127)) < 2 ^ 7"
      by (simp only: unsigned_take_bit_eq) (rule take_bit_nat_less_exp)
    then show ?thesis
      by (simp add: word_le_nat_alt)
  qed
  have "align128 c - c = 127 - take_bit 7 (c + 127)"
    by (simp add: align128_eq)
  also have "unat \<dots> = 127 - unat (take_bit 7 (c + 127))"
    using le by (simp add: unat_sub)
  finally show ?thesis
    by simp
qed





section \<open>Runs of writes\<close>

lemma write_run_Nil [simp]: "write_run buf off [] = buf"
  by (simp add: write_run_def)

lemma length_write_run:
  "off + length xs \<le> length buf \<Longrightarrow> length (write_run buf off xs) = length buf"
  by (simp add: write_run_def)

lemma write_run_update:
  assumes "off < length buf"
  shows "write_run (buf[off := v]) (Suc off) xs = write_run buf off (v # xs)"
proof -
  have "take (Suc off) (buf[off := v]) = take off buf @ [v]"
    using assms by (simp add: take_Suc_conv_app_nth)
  then show ?thesis
    by (simp add: write_run_def)
qed

lemma write_run_append:
  assumes "off + length xs \<le> length buf"
  shows "write_run (write_run buf off xs) (off + length xs) ys = write_run buf off (xs @ ys)"
proof -
  from assms have len: "length (take off buf) = off"
    by simp
  have "take (off + length xs) (take off buf @ xs @ drop (off + length xs) buf) = take off buf @ xs"
    using len by (metis append.assoc append_eq_conv_conj length_append)
  moreover have "drop (off + length xs + length ys) (take off buf @ xs @ drop (off + length xs) buf)
      = drop (off + length (xs @ ys)) buf"
  proof -
    have "drop (off + length xs + length ys) ((take off buf @ xs) @ drop (off + length xs) buf)
        = drop (length ys) (drop (off + length xs) buf)"
      using len by (subst drop_append) simp
    then show ?thesis
      by (simp add: add.commute add.left_commute)
  qed
  ultimately show ?thesis
    by (simp add: write_run_def)
qed

lemma write_run_all:
  "length xs = length buf \<Longrightarrow> write_run buf 0 xs = xs"
  by (simp add: write_run_def)

section \<open>The loop ranges\<close>

lemma unat_succ_less:
  fixes x hi :: uint32_t
  assumes "x < hi"
  shows "unat (x + 1) = Suc (unat x)"
proof -
  have "unat x + unat (1 :: uint32_t) < 2 ^ LENGTH(32)"
    using assms unsigned_less [of hi, where ?'a = nat] by (simp add: word_less_nat_alt)
  then show ?thesis
    by (simp add: unat_add_lem [THEN iffD1])
qed

lemma word_range_empty: "\<not> lo < hi \<Longrightarrow> word_range lo hi = []"
  by (simp add: word_range_def word_less_nat_alt)

lemma word_range_step:
  assumes "lo < hi"
  shows "word_range lo hi = lo # word_range (lo + 1) hi"
proof -
  from assms have lt: "unat lo < unat hi"
    by (simp add: word_less_nat_alt)
  have suc: "unat (lo + 1) = Suc (unat lo)"
    using assms by (rule unat_succ_less)
  from lt have "unat hi - unat lo = Suc (unat hi - unat (lo + 1))"
    by (simp add: suc)
  then have "word_range lo hi = map (\<lambda>j. lo + of_nat j) (0 # map Suc [0 ..< unat hi - unat (lo + 1)])"
    by (simp add: word_range_def upt_conv_Cons map_Suc_upt del: upt_Suc)
  then show ?thesis
    by (simp add: word_range_def comp_def add.assoc)
qed


section \<open>The loops of duplicateWithKeys\<close>

lemma dup_cols_eq:
  assumes "length ks = length vs" and "length ks < 2 ^ 32"
  shows "dup_cols grid depth idx y xmax x off (ks, vs) =
     (if word_range x xmax = [] \<or> unat off + length (word_range x xmax) \<le> length ks
      then Some (off + of_nat (length (word_range x xmax)),
                 (write_run ks (unat off) (map (\<lambda>x. make_key grid y x depth) (word_range x xmax)),
                  write_run vs (unat off) (map (\<lambda>x. of_nat idx) (word_range x xmax))))
      else None)"
  using assms
proof (induction n \<equiv> "unat xmax - unat x" arbitrary: x off ks vs)
  case 0
  then have "\<not> x < xmax"
    by (simp add: word_less_nat_alt)
  then show ?case
    by (subst dup_cols.simps) (simp add: word_range_empty)
next
  case (Suc n)
  then have lt: "x < xmax"
    by (simp add: word_less_nat_alt)
  have suc: "unat (x + 1) = Suc (unat x)"
    using lt by (rule unat_succ_less)
  with Suc.hyps(2) have n: "n = unat xmax - unat (x + 1)"
    by simp
  have range: "word_range x xmax = x # word_range (x + 1) xmax"
    using lt by (rule word_range_step)
  show ?case
  proof (cases "unat off < length ks")
    case False
    then show ?thesis
      using lt Suc.prems by (subst dup_cols.simps) (simp add: range)
  next
    case True
    then have "unat off + unat (1 :: uint32_t) < 2 ^ LENGTH(32)"
      using Suc.prems(2) by simp
    then have off: "unat (off + 1) = Suc (unat off)"
      by (simp add: unat_add_lem [THEN iffD1])
    have len: "length (ks[unat off := make_key grid y x depth])
        = length (vs[unat off := (of_nat idx :: uint32_t)])"
      "length (ks[unat off := make_key grid y x depth]) < 2 ^ 32"
      using Suc.prems by simp_all
    show ?thesis
      using lt True Suc.prems
      by (subst dup_cols.simps)
        (simp add: Suc.hyps(1) [OF n len] range off write_run_update add.assoc)
  qed
qed


lemma unat_add_of_nat:
  fixes off :: uint32_t
  assumes "unat off + w < 2 ^ 32"
  shows "unat (off + of_nat w) = unat off + w"
proof -
  from assms have w: "unat (of_nat w :: uint32_t) = w"
    by (simp add: unat_of_nat)
  with assms have "unat off + unat (of_nat w :: uint32_t) < 2 ^ LENGTH(32)"
    by simp
  then show ?thesis
    using w by (simp add: unat_add_lem [THEN iffD1])
qed

lemma dup_rows_eq:
  assumes "length ks = length vs" and "length ks < 2 ^ 32"
  shows "dup_rows grid depth idx xmin xmax ymax y off (ks, vs) =
     (let tiles = concat (map (\<lambda>y. map (\<lambda>x. (y, x)) (word_range xmin xmax)) (word_range y ymax))
      in if tiles = [] \<or> unat off + length tiles \<le> length ks
         then Some (off + of_nat (length tiles),
                    (write_run ks (unat off) (map (\<lambda>(y, x). make_key grid y x depth) tiles),
                     write_run vs (unat off) (map (\<lambda>t. of_nat idx) tiles)))
         else None)"
  using assms
proof (induction n \<equiv> "unat ymax - unat y" arbitrary: y off ks vs)
  case 0
  then have "\<not> y < ymax"
    by (simp add: word_less_nat_alt)
  then show ?case
    by (subst dup_rows.simps) (simp add: word_range_empty)
next
  case (Suc n)
  then have lt: "y < ymax"
    by (simp add: word_less_nat_alt)
  have "unat (y + 1) = Suc (unat y)"
    using lt by (rule unat_succ_less)
  with Suc.hyps(2) have n: "n = unat ymax - unat (y + 1)"
    by simp
  have range: "word_range y ymax = y # word_range (y + 1) ymax"
    using lt by (rule word_range_step)
  define xs where "xs = word_range xmin xmax"
  define rest where "rest = concat (map (\<lambda>y. map (\<lambda>x. (y, x)) xs) (word_range (y + 1) ymax))"
  define key where "key = (\<lambda>(y, x). make_key grid y x depth)"
  have tiles: "concat (map (\<lambda>y. map (\<lambda>x. (y, x)) xs) (word_range y ymax))
      = map (\<lambda>x. (y, x)) xs @ rest"
    by (simp add: range rest_def)
  define rk where "rk = map key (map (\<lambda>x. (y, x)) xs)"
  define rv where "rv = map (\<lambda>t. of_nat idx :: uint32_t) (map (\<lambda>x. (y, x)) xs)"
  have rlen: "length rk = length xs" "length rv = length xs"
    by (simp_all add: rk_def rv_def)
  have cols: "dup_cols grid depth idx y xmax xmin off (ks, vs) =
     (if xs = [] \<or> unat off + length xs \<le> length ks
      then Some (off + of_nat (length xs), (write_run ks (unat off) rk, write_run vs (unat off) rv))
      else None)"
    using dup_cols_eq [OF Suc.prems, of grid depth idx y xmax xmin off]
    by (simp add: xs_def key_def comp_def rk_def rv_def)
  have step: "dup_rows grid depth idx xmin xmax ymax y off (ks, vs) =
     (case dup_cols grid depth idx y xmax xmin off (ks, vs) of
        None \<Rightarrow> None
      | Some (off', bufs') \<Rightarrow> dup_rows grid depth idx xmin xmax ymax (y + 1) off' bufs')"
    using lt by (subst dup_rows.simps) simp
  have ih: "dup_rows grid depth idx xmin xmax ymax (y + 1) off' (ks', vs') =
     (if rest = [] \<or> unat off' + length rest \<le> length ks'
      then Some (off' + of_nat (length rest),
                 (write_run ks' (unat off') (map key rest),
                  write_run vs' (unat off') (map (\<lambda>t. of_nat idx) rest)))
      else None)"
    if "length ks' = length vs'" and "length ks' < 2 ^ 32" for off' ks' vs'
    using Suc.hyps(1) [OF n that, of off'] by (simp add: rest_def xs_def key_def Let_def)
  have goal: "dup_rows grid depth idx xmin xmax ymax y off (ks, vs) =
     (if xs = [] \<and> rest = [] \<or> unat off + (length xs + length rest) \<le> length ks
      then Some (off + of_nat (length xs + length rest),
                 (write_run ks (unat off) (rk @ map key rest),
                  write_run vs (unat off) (rv @ map (\<lambda>t. of_nat idx) rest)))
      else None)"
  proof (cases "xs = []")
    case True
    then have "rest = []" "rk = []" "rv = []"
      by (simp_all add: rest_def rk_def rv_def)
    with True show ?thesis
      using Suc.prems by (simp add: step cols ih)
  next
    case nonempty: False
    show ?thesis
    proof (cases "unat off + length xs \<le> length ks")
      case False
      then show ?thesis
        using nonempty by (simp add: step cols)
    next
      case True
      then have off: "unat (off + of_nat (length xs)) = unat off + length xs"
        using Suc.prems(2) by (intro unat_add_of_nat) simp
      have len: "length (write_run ks (unat off) rk) = length (write_run vs (unat off) rv)"
        "length (write_run ks (unat off) rk) < 2 ^ 32"
        using True Suc.prems by (simp_all add: length_write_run rlen)
      have len': "length (write_run ks (unat off) rk) = length ks"
        using True by (simp add: length_write_run rlen)
      have app: "write_run (write_run ks (unat off) rk) (unat off + length xs) (map key rest)
          = write_run ks (unat off) (rk @ map key rest)"
        "write_run (write_run vs (unat off) rv) (unat off + length xs) (map (\<lambda>t. of_nat idx) rest)
          = write_run vs (unat off) (rv @ map (\<lambda>t. of_nat idx) rest)"
        using True Suc.prems
          write_run_append [of "unat off" rk ks "map key rest"]
          write_run_append [of "unat off" rv vs "map (\<lambda>t. of_nat idx) rest"]
        by (simp_all add: rlen)
      have "dup_rows grid depth idx xmin xmax ymax y off (ks, vs) =
          dup_rows grid depth idx xmin xmax ymax (y + 1) (off + of_nat (length xs))
            (write_run ks (unat off) rk, write_run vs (unat off) rv)"
        using True by (simp add: step cols)
      also have "\<dots> =
         (if rest = [] \<or> unat off + length xs + length rest \<le> length ks
          then Some (off + of_nat (length xs) + of_nat (length rest),
                 (write_run ks (unat off) (rk @ map key rest),
                  write_run vs (unat off) (rv @ map (\<lambda>t. of_nat idx) rest)))
          else None)"
        by (simp only: ih [OF len] len' off app)
      finally show ?thesis
        using True nonempty by (auto simp: add.assoc)
    qed
  qed
  show ?case
    unfolding Let_def tiles [unfolded xs_def]
    using goal by (simp add: xs_def key_def rk_def rv_def)
qed


section \<open>The tiles of a rectangle\<close>

lemma map_unat_word_range: "map unat (word_range lo hi) = [unat lo ..< unat hi]"
proof (cases "lo < hi")
  case False
  then show ?thesis
    by (simp add: word_range_empty word_less_nat_alt)
next
  case True
  then have le: "unat lo \<le> unat hi"
    by (simp add: word_less_nat_alt)
  have "unat (lo + of_nat j) = unat lo + j" if "j < unat hi - unat lo" for j
  proof (rule unat_add_of_nat)
    have "unat lo + j < unat hi"
      using that by simp
    also have "unat hi < 2 ^ 32"
      using unsigned_less [of hi, where ?'a = nat] by simp
    finally show "unat lo + j < 2 ^ 32" .
  qed
  then have "map unat (word_range lo hi) = map (\<lambda>j. unat lo + j) [0 ..< unat hi - unat lo]"
    by (simp add: word_range_def)
  also have "\<dots> = [unat lo ..< unat hi]"
    using le by (intro nth_equalityI) simp_all
  finally show ?thesis .
qed

lemma length_word_range [simp]: "length (word_range lo hi) = unat hi - unat lo"
  by (simp add: word_range_def)

lemma distinct_word_range: "distinct (word_range lo hi)"
proof -
  have "distinct (map unat (word_range lo hi))"
    by (simp add: map_unat_word_range)
  then show ?thesis
    by (simp add: distinct_map)
qed

lemma set_word_range: "set (word_range lo hi) = {x. lo \<le> x \<and> x < hi}"
proof -
  have "x \<in> set (word_range lo hi) \<longleftrightarrow> unat x \<in> set (map unat (word_range lo hi))" for x
    by (simp add: inj_image_mem_iff)
  then show ?thesis
    by (auto simp: map_unat_word_range word_le_nat_alt word_less_nat_alt)
qed

lemma rect_tiles_product:
  "rect_tiles rect_min rect_max =
     List.product (word_range (u2y rect_min) (u2y rect_max)) (word_range (u2x rect_min) (u2x rect_max))"
proof -
  have "concat (map (\<lambda>y. map (\<lambda>x. (y, x)) xs) ys) = List.product ys xs"
    for xs ys :: "uint32_t list"
    by (induction ys) simp_all
  then show ?thesis
    by (simp add: rect_tiles_def)
qed

lemma distinct_rect_tiles: "distinct (rect_tiles rect_min rect_max)"
  by (simp add: rect_tiles_product distinct_product distinct_word_range)

lemma set_rect_tiles:
  "set (rect_tiles rect_min rect_max) =
     {(y, x). u2y rect_min \<le> y \<and> y < u2y rect_max \<and> u2x rect_min \<le> x \<and> x < u2x rect_max}"
  by (auto simp: rect_tiles_product set_word_range)

lemma length_rect_tiles:
  "length (rect_tiles rect_min rect_max) =
     (unat (u2y rect_max) - unat (u2y rect_min)) * (unat (u2x rect_max) - unat (u2x rect_min))"
  by (simp add: rect_tiles_product)

lemma clamp_to_grid_le: "clamp_to_grid v g \<le> g"
proof -
  define k where "k = min (uint g) (max 0 v)"
  have k: "0 \<le> k" "k \<le> uint g"
    by (simp_all add: k_def)
  have "k < 2 ^ 32"
    using k(2) uint_lt2p [of g] by simp
  with k(1) have "uint (word_of_int k :: uint32_t) = k"
    by (simp add: uint_word_of_int_eq take_bit_int_eq_self)
  with k(2) show ?thesis
    by (simp add: clamp_to_grid_def word_le_def flip: k_def)
qed

section \<open>One thread of duplicateWithKeys\<close>

lemma duplicateWithKeys_thread_eq:
  assumes "idx < P" and "P \<le> length radii" and "P \<le> length points_xy" and "P \<le> length depths"
    and "P \<le> length offsets" and "length ks = length vs" and "length ks < 2 ^ 32"
  shows "duplicateWithKeys_thread P points_xy depths offsets radii grid idx (ks, vs) =
     (let off = (if idx = 0 then 0 else unat (offsets ! (idx - 1)))
      in if prim_tiles grid radii points_xy idx = []
            \<or> off + length (prim_tiles grid radii points_xy idx) \<le> length ks
         then Some (write_run ks off (prim_keys grid radii points_xy depths idx),
                    write_run vs off (prim_values grid radii points_xy idx))
         else None)"
proof (cases "0 < radii ! idx")
  case False
  then show ?thesis
    using assms
    by (simp add: duplicateWithKeys_thread_def nth_opt_def prim_tiles_def prim_keys_def
        prim_values_def)
next
  case True
  obtain rect_min rect_max where rect: "getRect (points_xy ! idx) grid = (rect_min, rect_max)"
    by (cases "getRect (points_xy ! idx) grid")
  define off where "off = (if idx = 0 then 0 else offsets ! (idx - 1))"
  define tiles where "tiles = rect_tiles rect_min rect_max"
  have read_off: "(if idx = 0 then Some 0 else nth_opt offsets (idx - 1)) = Some off"
    using assms by (auto simp: off_def nth_opt_def)
  have unat_off: "(if idx = 0 then 0 else unat (offsets ! (idx - 1))) = unat off"
    by (simp add: off_def)
  have rows: "dup_rows grid (depths ! idx) idx (u2x rect_min) (u2x rect_max) (u2y rect_max)
        (u2y rect_min) off (ks, vs) =
     (if tiles = [] \<or> unat off + length tiles \<le> length ks
      then Some (off + of_nat (length tiles),
                 (write_run ks (unat off) (map (\<lambda>(y, x). make_key grid y x (depths ! idx)) tiles),
                  write_run vs (unat off) (map (\<lambda>t. of_nat idx) tiles)))
      else None)"
    using dup_rows_eq [OF assms(6,7)] by (simp add: tiles_def rect_tiles_def Let_def)
  have prim: "prim_tiles grid radii points_xy idx = tiles"
    "prim_keys grid radii points_xy depths idx = map (\<lambda>(y, x). make_key grid y x (depths ! idx)) tiles"
    "prim_values grid radii points_xy idx = map (\<lambda>t. of_nat idx) tiles"
    using True by (simp_all add: prim_tiles_def prim_keys_def prim_values_def rect tiles_def)
  have "duplicateWithKeys_thread P points_xy depths offsets radii grid idx (ks, vs) =
      map_option snd (dup_rows grid (depths ! idx) idx (u2x rect_min) (u2x rect_max) (u2y rect_max)
        (u2y rect_min) off (ks, vs))"
    unfolding duplicateWithKeys_thread_def read_off
    using assms True by (simp add: nth_opt_def rect map_conv_bind_option comp_def)
  then show ?thesis
    unfolding unat_off Let_def prim rows by simp
qed

text \<open>
  C3: thread \<open>idx\<close> of \<open>duplicateWithKeys\<close>. The rectangle from \<open>getRect\<close> lies inside the grid
  and \<open>tiles\<close> lists each of its tiles once. For a radius above 0 the thread starts at
  \<open>offsets[idx - 1]\<close> (0 for the first primitive) and fills the cells from there on, one per tile
  in loop order, with the key \<open>(tile << 32) | depth\<close> and the value \<open>idx\<close>; for a radius of 0 or
  less it leaves both buffers as they are.
\<close>

theorem duplicateWithKeys_thread_writes:
  assumes "idx < P"
    and "length radii = P" and "length points_xy = P" and "length depths = P"
    and "length offsets = P"
    and "length keys = length vals" and "length keys < 2 ^ 32"
    and "getRect (points_xy ! idx) grid = (rect_min, rect_max)"
    and "tiles = rect_tiles rect_min rect_max"
    and "start = (if idx = 0 then 0 else unat (offsets ! (idx - 1)))"
  shows "(u2x rect_min \<le> d3x grid \<and> u2x rect_max \<le> d3x grid
      \<and> u2y rect_min \<le> d3y grid \<and> u2y rect_max \<le> d3y grid)
    \<and> (distinct tiles
      \<and> set tiles = {(y, x). u2y rect_min \<le> y \<and> y < u2y rect_max \<and> u2x rect_min \<le> x \<and> x < u2x rect_max})
    \<and> (0 < radii ! idx \<longrightarrow> start + length tiles \<le> length keys \<longrightarrow>
      duplicateWithKeys_thread P points_xy depths offsets radii grid idx (keys, vals) =
        Some (write_run keys start
                (map (\<lambda>(y, x). push_bit 32 (ucast (y * d3x grid + x)) OR ucast (depths ! idx)) tiles),
              write_run vals start (map (\<lambda>t. of_nat idx) tiles)))
    \<and> (radii ! idx \<le> 0 \<longrightarrow>
      duplicateWithKeys_thread P points_xy depths offsets radii grid idx (keys, vals) = Some (keys, vals))"
proof (intro conjI)
  show "u2x rect_min \<le> d3x grid" "u2x rect_max \<le> d3x grid"
    "u2y rect_min \<le> d3y grid" "u2y rect_max \<le> d3y grid"
    using assms(8) by (auto simp: getRect_def clamp_to_grid_le)
  show "distinct tiles"
    "set tiles = {(y, x). u2y rect_min \<le> y \<and> y < u2y rect_max \<and> u2x rect_min \<le> x \<and> x < u2x rect_max}"
    by (simp_all add: assms(9) distinct_rect_tiles set_rect_tiles)
  have thread: "duplicateWithKeys_thread P points_xy depths offsets radii grid idx (keys, vals) =
     (if prim_tiles grid radii points_xy idx = []
            \<or> start + length (prim_tiles grid radii points_xy idx) \<le> length keys
         then Some (write_run keys start (prim_keys grid radii points_xy depths idx),
                    write_run vals start (prim_values grid radii points_xy idx))
         else None)"
    using duplicateWithKeys_thread_eq [of idx P radii points_xy depths offsets keys vals grid] assms
    by (simp add: Let_def)
  show "0 < radii ! idx \<longrightarrow> start + length tiles \<le> length keys \<longrightarrow>
      duplicateWithKeys_thread P points_xy depths offsets radii grid idx (keys, vals) =
        Some (write_run keys start
                (map (\<lambda>(y, x). push_bit 32 (ucast (y * d3x grid + x)) OR ucast (depths ! idx)) tiles),
              write_run vals start (map (\<lambda>t. of_nat idx) tiles))"
    by (simp add: thread prim_tiles_def prim_keys_def prim_values_def assms(8,9) make_key_def)
  show "radii ! idx \<le> 0 \<longrightarrow>
      duplicateWithKeys_thread P points_xy depths offsets radii grid idx (keys, vals) = Some (keys, vals)"
    by (simp add: thread prim_tiles_def prim_keys_def prim_values_def)
qed

theorem duplicateWithKeys_thread_writes_witness:
  "duplicateWithKeys_thread 1 [\<lparr>box_min_x = 0, box_min_y = 0, box_max_x = 2, box_max_y = 1\<rparr>]
      [0x3F800000] [2] [3] \<lparr>d3x = 2, d3y = 1\<rparr> 0 ([5, 6, 7], [9, 9, 9])
    = Some ([0x3F800000, 0x13F800000, 7], [0, 0, 9])"
proof -
  have rect: "getRect ([\<lparr>box_min_x = 0, box_min_y = 0, box_max_x = 2, box_max_y = 1\<rparr>] ! 0)
      \<lparr>d3x = 2, d3y = 1\<rparr> = (\<lparr>u2x = 0, u2y = 0\<rparr>, \<lparr>u2x = 2, u2y = 1\<rparr>)"
    by (simp add: getRect_def clamp_to_grid_def)
  have tiles: "[(0, 0), (0, 1)] = rect_tiles \<lparr>u2x = 0, u2y = 0\<rparr> \<lparr>u2x = 2, u2y = 1\<rparr>"
    by code_simp
  have start: "(0 :: nat) = (if (0 :: nat) = 0 then 0 else unat (([2] :: uint32_t list) ! (0 - 1)))"
    by simp
  show ?thesis
    using duplicateWithKeys_thread_writes [of 0 1 "[3]"
        "[\<lparr>box_min_x = 0, box_min_y = 0, box_max_x = 2, box_max_y = 1\<rparr>]" "[0x3F800000]" "[2]"
        "[5, 6, 7]" "[9, 9, 9]" "\<lparr>d3x = 2, d3y = 1\<rparr>", OF _ _ _ _ _ _ _ rect tiles start]
    by (simp add: write_run_def)
qed

section \<open>Running threads\<close>

lemma run_threads_append:
  "run_threads thread (xs @ ys) s =
     (case run_threads thread xs s of None \<Rightarrow> None | Some s' \<Rightarrow> run_threads thread ys s')"
  by (induction xs arbitrary: s) (simp_all split: option.splits)

lemma run_threads_idle:
  assumes "\<And>idx s. idx \<in> set xs \<Longrightarrow> thread idx s = Some s"
  shows "run_threads thread xs s = Some s"
  using assms by (induction xs) simp_all

lemma launched_split: "launched n = [0 ..< n] @ [n ..< ((n + 255) div 256) * 256]"
proof -
  have "(n + 255) mod 256 < 256"
    by simp
  then have "n \<le> ((n + 255) div 256) * 256"
    using div_mult_mod_eq [of "n + 255" 256] by linarith
  then obtain k where "((n + 255) div 256) * 256 = n + k"
    using le_Suc_ex by blast
  then show ?thesis
    using upt_add_eq_append [of 0 n k] by (simp add: launched_def)
qed

section \<open>Offsets from the prefix sum\<close>

lemma inclusive_scan_nth:
  "i < length cs \<Longrightarrow> inclusive_scan acc cs ! i = acc + sum_list (take (Suc i) cs)"
proof (induction cs arbitrary: acc i)
  case Nil
  then show ?case by simp
next
  case (Cons c cs)
  then show ?case
    by (cases i) (simp_all add: add.assoc)
qed

lemma sum_list_take_of_nat:
  fixes cs :: "uint32_t list"
  assumes "k \<le> length cs" and "\<And>i. i < k \<Longrightarrow> unat (cs ! i) = f i"
  shows "sum_list (take k cs) = of_nat (sum_list (map f [0 ..< k]))"
  using assms
proof (induction k)
  case 0
  then show ?case by simp
next
  case (Suc k)
  from Suc.prems(2) [of k] have "of_nat (unat (cs ! k)) = (of_nat (f k) :: uint32_t)"
    by simp
  then have "cs ! k = of_nat (f k)"
    by simp
  with Suc show ?case
    by (simp add: take_Suc_conv_app_nth)
qed


section \<open>The whole launch of duplicateWithKeys\<close>

lemma length_prim_keys [simp]:
  "length (prim_keys grid radii points_xy depths i) = length (prim_tiles grid radii points_xy i)"
  by (simp add: prim_keys_def)

lemma length_prim_values [simp]:
  "length (prim_values grid radii points_xy i) = length (prim_tiles grid radii points_xy i)"
  by (simp add: prim_values_def)

lemma duplicateWithKeys_prefix:
  assumes sizes: "P \<le> length radii" "P \<le> length points_xy" "P \<le> length depths"
      "P \<le> length touched"
    and offsets: "offsets = inclusive_scan 0 (take P touched)"
    and touched: "\<And>i. i < P \<Longrightarrow> unat (touched ! i) = length (prim_tiles grid radii points_xy i)"
    and bufs: "length ks = length vs" "length ks < 2 ^ 32"
    and k: "k \<le> P"
  shows "run_threads (duplicateWithKeys_thread P points_xy depths offsets radii grid) [0 ..< k] (ks, vs) =
     (if sum_list (map (\<lambda>i. length (prim_tiles grid radii points_xy i)) [0 ..< k]) \<le> length ks
      then Some (write_run ks 0 (concat (map (prim_keys grid radii points_xy depths) [0 ..< k])),
                 write_run vs 0 (concat (map (prim_values grid radii points_xy) [0 ..< k])))
      else None)"
  using k
proof (induction k)
  case 0
  then show ?case by simp
next
  case (Suc k)
  define len where "len = (\<lambda>i. length (prim_tiles grid radii points_xy i))"
  define S where "S = sum_list (map len [0 ..< k])"
  define K where "K = concat (map (prim_keys grid radii points_xy depths) [0 ..< k])"
  define V where "V = concat (map (prim_values grid radii points_xy) [0 ..< k])"
  have lenK: "length K = S" "length V = S"
    by (simp_all add: K_def V_def S_def len_def length_concat comp_def)
  from Suc.prems have kP: "k < P" "k \<le> P"
    by simp_all
  have ih: "run_threads (duplicateWithKeys_thread P points_xy depths offsets radii grid) [0 ..< k] (ks, vs) =
     (if S \<le> length ks then Some (write_run ks 0 K, write_run vs 0 V) else None)"
    using Suc.IH [OF kP(2)] by (simp add: S_def K_def V_def len_def)
  have Ssuc: "sum_list (map len [0 ..< Suc k]) = S + len k"
    by (simp add: S_def)
  have final: "run_threads (duplicateWithKeys_thread P points_xy depths offsets radii grid) [0 ..< Suc k] (ks, vs)
      = (if S + len k \<le> length ks
         then Some (write_run ks 0 (K @ prim_keys grid radii points_xy depths k),
                    write_run vs 0 (V @ prim_values grid radii points_xy k))
         else None)"
  proof (cases "S \<le> length ks")
    case False
    then show ?thesis
      by (simp add: run_threads_append ih)
  next
    case True
    then have S32: "S < 2 ^ 32"
      using bufs(2) by simp
    have "unat (offsets ! (k - 1)) = S" if "k \<noteq> 0"
    proof -
      from that kP have "k - 1 < length (take P touched)"
        using sizes(4) by simp
      then have "offsets ! (k - 1) = sum_list (take k (take P touched))"
        using that by (simp add: offsets inclusive_scan_nth)
      also have "\<dots> = of_nat S"
        unfolding S_def len_def
      proof (rule sum_list_take_of_nat)
        show "k \<le> length (take P touched)"
          using kP sizes(4) by simp
        show "unat (take P touched ! i) = length (prim_tiles grid radii points_xy i)" if "i < k" for i
          using that kP touched [of i] by simp
      qed
      finally show ?thesis
        using S32 by (simp add: unat_of_nat)
    qed
    then have start: "(if k = 0 then 0 else unat (offsets ! (k - 1))) = S"
      by (simp add: S_def)
    have lens: "length (write_run ks 0 K) = length (write_run vs 0 V)"
      "length (write_run ks 0 K) < 2 ^ 32" "length (write_run ks 0 K) = length ks"
      using True bufs by (simp_all add: length_write_run lenK)
    have "length offsets = P"
      using sizes(4) by (simp add: offsets)
    then have thread: "duplicateWithKeys_thread P points_xy depths offsets radii grid k
        (write_run ks 0 K, write_run vs 0 V) =
       (if len k = 0 \<or> S + len k \<le> length ks
        then Some (write_run (write_run ks 0 K) S (prim_keys grid radii points_xy depths k),
                   write_run (write_run vs 0 V) S (prim_values grid radii points_xy k))
        else None)"
      using duplicateWithKeys_thread_eq [OF kP(1) sizes(1,2,3) _ lens(1,2), of offsets grid]
      by (simp add: start lens(3) len_def Let_def)
    have app: "write_run (write_run ks 0 K) S (prim_keys grid radii points_xy depths k)
        = write_run ks 0 (K @ prim_keys grid radii points_xy depths k)"
      "write_run (write_run vs 0 V) S (prim_values grid radii points_xy k)
        = write_run vs 0 (V @ prim_values grid radii points_xy k)"
      using True bufs write_run_append [of 0 K ks "prim_keys grid radii points_xy depths k"]
        write_run_append [of 0 V vs "prim_values grid radii points_xy k"]
      by (simp_all add: lenK)
    have "run_threads (duplicateWithKeys_thread P points_xy depths offsets radii grid) [0 ..< Suc k] (ks, vs)
        = (if len k = 0 \<or> S + len k \<le> length ks
           then Some (write_run ks 0 (K @ prim_keys grid radii points_xy depths k),
                      write_run vs 0 (V @ prim_values grid radii points_xy k))
           else None)"
      using True by (simp add: run_threads_append ih thread app)
    also have "(len k = 0 \<or> S + len k \<le> length ks) \<longleftrightarrow> S + len k \<le> length ks"
      using True by auto
    finally show ?thesis .
  qed
  show ?case
    using final by (simp add: S_def K_def V_def len_def)
qed

lemma duplicateWithKeys_eq:
  assumes "P \<le> length radii" "P \<le> length points_xy" "P \<le> length depths" "P \<le> length touched"
    and "offsets = inclusive_scan 0 (take P touched)"
    and "\<And>i. i < P \<Longrightarrow> unat (touched ! i) = length (prim_tiles grid radii points_xy i)"
    and "length ks = length vs" "length ks < 2 ^ 32"
  shows "duplicateWithKeys P points_xy depths offsets radii grid (ks, vs) =
     (if sum_list (map (\<lambda>i. length (prim_tiles grid radii points_xy i)) [0 ..< P]) \<le> length ks
      then Some (write_run ks 0 (concat (map (prim_keys grid radii points_xy depths) [0 ..< P])),
                 write_run vs 0 (concat (map (prim_values grid radii points_xy) [0 ..< P])))
      else None)"
proof -
  have idle: "run_threads (duplicateWithKeys_thread P points_xy depths offsets radii grid)
      [P ..< ((P + 255) div 256) * 256] s = Some s" for s
    by (rule run_threads_idle) (simp add: duplicateWithKeys_thread_def)
  have pre: "run_threads (duplicateWithKeys_thread P points_xy depths offsets radii grid) [0 ..< P] (ks, vs) =
     (if sum_list (map (\<lambda>i. length (prim_tiles grid radii points_xy i)) [0 ..< P]) \<le> length ks
      then Some (write_run ks 0 (concat (map (prim_keys grid radii points_xy depths) [0 ..< P])),
                 write_run vs 0 (concat (map (prim_values grid radii points_xy) [0 ..< P])))
      else None)"
    by (rule duplicateWithKeys_prefix [OF assms order_refl])
  show ?thesis
    by (simp add: duplicateWithKeys_def launched_split run_threads_append pre idle)
qed

section \<open>The count that forward returns\<close>

lemma sint_of_nat_small:
  assumes "n < 2 ^ 31"
  shows "sint (of_nat n :: uint32_t) = int n" and "unat (of_nat n :: uint32_t) = n"
proof -
  have "int n < 2 ^ 31"
    using assms by (metis of_nat_less_iff of_nat_numeral of_nat_power)
  then show "sint (of_nat n :: uint32_t) = int n"
    by (simp add: signed_of_nat signed_take_bit_int_eq_self)
  show "unat (of_nat n :: uint32_t) = n"
    using assms by (simp add: unat_of_nat)
qed

lemma sint_less_31: "sint (w :: uint32_t) < 2 ^ 31"
  using sint_lt [of w] by simp

lemma sum_list_of_nat_unat:
  fixes cs :: "uint32_t list"
  shows "sum_list cs = of_nat (sum_list (map unat cs))"
  by (induction cs) simp_all

lemma int32_eq: "- (2 ^ 31) \<le> k \<Longrightarrow> k < 2 ^ 31 \<Longrightarrow> int32 k = k"
  by (simp add: int32_def sint_sbintrunc' signed_take_bit_int_eq_self)

text \<open>
  A call with an accepted configuration and at least one primitive returns, whatever the
  kernels after the read-back do, and it returns the last entry of the scan, read as \<open>int\<close>.
\<close>

lemma forward_count:
  assumes "NUM_CHANNELS cfg = 3 \<or> colors_precomp \<noteq> None" and "1 \<le> P"
    and "length (pre_tiles_touched geom) = P"
  shows "\<exists>ev dev. forward cfg P width height colors_precomp background geom mem blend =
      (ev, Inr \<lparr>res_num_rendered = sint (inclusive_scan 0 (pre_tiles_touched geom) ! (P - 1)),
                res_point_offsets = inclusive_scan 0 (pre_tiles_touched geom),
                res_device = dev\<rparr>)"
proof -
  have ok: "(NUM_CHANNELS cfg \<noteq> 3 \<and> colors_precomp = None) = False"
    using assms(1) by auto
  have scan: "InclusiveSum (pre_tiles_touched geom) P
      = Some (inclusive_scan 0 (pre_tiles_touched geom))"
    using assms(3) by (simp add: InclusiveSum_def)
  have rd: "read_at (inclusive_scan 0 (pre_tiles_touched geom)) (int P - 1)
      = Some (inclusive_scan 0 (pre_tiles_touched geom) ! (P - 1))"
    using assms(2,3) by (simp add: read_at_def nat_diff_distrib')
  show ?thesis
    unfolding forward_def Let_def ok if_False scan option.case rd
    by (intro exI) (rule refl)
qed

text \<open>
  C4, as stated: the returned count is the sum of all touch counts. It fails when the sum does
  not fit: 1024 primitives that each cover all \<open>2048 * 2048\<close> tiles of an image of 32768 by
  32768 pixels have touch counts, as the projection stage's contract gives them, that sum to
  \<open>2 ^ 32\<close>; the last entry of the scan is 0, and 0 is returned.
\<close>

theorem forward_count_overflow:
  "geometry_sized overflow_geom 1024
   \<and> tiles_touched_ok (tile_grid_of example_cfg 32768 32768) overflow_geom 1024
   \<and> sum_list (map unat (pre_tiles_touched overflow_geom)) = 4294967296
   \<and> (\<exists>ev res. forward example_cfg 1024 32768 32768 (None :: unit option) [1, 1, 1] overflow_geom
          example_mem example_blend = (ev, Inr res)
        \<and> res_point_offsets res ! 1023 = 0
        \<and> res_num_rendered res = 0)"
proof -
  have sized: "geometry_sized overflow_geom 1024"
    by (simp add: geometry_sized_def overflow_geom_def)
  have grid: "tile_grid_of example_cfg 32768 32768 = \<lparr>d3x = 2048, d3y = 2048\<rparr>"
    unfolding example_cfg_def by code_simp
  have rect: "getRect \<lparr>box_min_x = 0, box_min_y = 0, box_max_x = 2048, box_max_y = 2048\<rparr>
      \<lparr>d3x = 2048, d3y = 2048\<rparr> = (\<lparr>u2x = 0, u2y = 0\<rparr>, \<lparr>u2x = 2048, u2y = 2048\<rparr>)"
    by (simp add: getRect_def clamp_to_grid_def)
  have "unat (pre_tiles_touched overflow_geom ! i)
      = length (prim_tiles \<lparr>d3x = 2048, d3y = 2048\<rparr> (pre_radii overflow_geom)
          (pre_points_xy overflow_geom) i)" if "i < 1024" for i
    using that by (simp add: overflow_geom_def prim_tiles_def rect length_rect_tiles)
  then have touched: "tiles_touched_ok (tile_grid_of example_cfg 32768 32768) overflow_geom 1024"
    by (simp add: tiles_touched_ok_def grid)
  have total: "sum_list (map unat (pre_tiles_touched overflow_geom)) = 4294967296"
    by (simp add: overflow_geom_def sum_list_replicate)
  have whole: "take 1024 (pre_tiles_touched overflow_geom) = pre_tiles_touched overflow_geom"
    by (simp add: overflow_geom_def)
  have "inclusive_scan 0 (pre_tiles_touched overflow_geom) ! 1023
      = 0 + sum_list (take (Suc 1023) (pre_tiles_touched overflow_geom))"
    by (rule inclusive_scan_nth) (simp add: overflow_geom_def)
  also have "\<dots> = sum_list (pre_tiles_touched overflow_geom)"
    by (simp add: whole)
  also have "\<dots> = of_nat (sum_list (map unat (pre_tiles_touched overflow_geom)))"
    by (rule sum_list_of_nat_unat)
  also have "\<dots> = 0"
    unfolding total by simp
  finally have last: "inclusive_scan 0 (pre_tiles_touched overflow_geom) ! 1023 = 0" .
  have "\<exists>ev dev. forward example_cfg 1024 32768 32768 (None :: unit option) [1, 1, 1] overflow_geom
          example_mem example_blend =
      (ev, Inr \<lparr>res_num_rendered = sint (inclusive_scan 0 (pre_tiles_touched overflow_geom) ! (1024 - 1)),
                res_point_offsets = inclusive_scan 0 (pre_tiles_touched overflow_geom),
                res_device = dev\<rparr>)"
    by (rule forward_count) (simp_all add: example_cfg_def overflow_geom_def)
  then obtain ev dev where "forward example_cfg 1024 32768 32768 (None :: unit option) [1, 1, 1]
          overflow_geom example_mem example_blend =
      (ev, Inr \<lparr>res_num_rendered = 0,
                res_point_offsets = inclusive_scan 0 (pre_tiles_touched overflow_geom),
                res_device = dev\<rparr>)"
    using last by auto
  then have "\<exists>ev res. forward example_cfg 1024 32768 32768 (None :: unit option) [1, 1, 1]
          overflow_geom example_mem example_blend = (ev, Inr res)
        \<and> res_point_offsets res ! 1023 = 0
        \<and> res_num_rendered res = 0"
    using last
    by (intro exI [of _ ev] exI [of _ "\<lparr>res_num_rendered = 0,
                res_point_offsets = inclusive_scan 0 (pre_tiles_touched overflow_geom),
                res_device = dev\<rparr>"]) simp
  with sized touched total show ?thesis
    by blast
qed

text \<open>
  C4, amended: a call with an accepted configuration and at least one primitive returns;
  \<open>point_offsets\<close> holds the running totals of the touch counts modulo \<open>2 ^ 32\<close>; the
  returned count is \<open>point_offsets[P - 1]\<close> read as a signed 32-bit number; and it is the sum
  of all touch counts exactly when that sum is below \<open>2 ^ 31\<close>.
\<close>

theorem forward_num_rendered_sum_mod:
  assumes "NUM_CHANNELS cfg = 3 \<or> colors_precomp \<noteq> None" and "1 \<le> P"
    and "length (pre_tiles_touched geom) = P"
  shows "\<exists>ev res. forward cfg P width height colors_precomp background geom mem blend = (ev, Inr res)
    \<and> length (res_point_offsets res) = P
    \<and> (\<forall>i < P. unat (res_point_offsets res ! i)
          = sum_list (map unat (take (Suc i) (pre_tiles_touched geom))) mod 2 ^ 32)
    \<and> res_num_rendered res = sint (res_point_offsets res ! (P - 1))
    \<and> (res_num_rendered res = int (sum_list (map unat (pre_tiles_touched geom)))
        \<longleftrightarrow> sum_list (map unat (pre_tiles_touched geom)) < 2 ^ 31)"
proof -
  define offs where "offs = inclusive_scan 0 (pre_tiles_touched geom)"
  define n_inst where "n_inst = sum_list (map unat (pre_tiles_touched geom))"
  from forward_count [OF assms] obtain ev dev where
    ret: "forward cfg P width height colors_precomp background geom mem blend =
      (ev, Inr \<lparr>res_num_rendered = sint (offs ! (P - 1)), res_point_offsets = offs,
                res_device = dev\<rparr>)"
    unfolding offs_def by blast
  have len: "length offs = P"
    by (simp add: offs_def assms(3))
  have nth: "unat (offs ! i) = sum_list (map unat (take (Suc i) (pre_tiles_touched geom))) mod 2 ^ 32"
    if "i < P" for i
  proof -
    have "offs ! i = sum_list (take (Suc i) (pre_tiles_touched geom))"
      using that assms(3) by (simp add: offs_def inclusive_scan_nth)
    also have "\<dots> = of_nat (sum_list (map unat (take (Suc i) (pre_tiles_touched geom))))"
      by (rule sum_list_of_nat_unat)
    finally show ?thesis
      by (simp add: unat_of_nat)
  qed
  have "offs ! (P - 1) = sum_list (take (Suc (P - 1)) (pre_tiles_touched geom))"
    using assms(2,3) by (simp add: offs_def inclusive_scan_nth)
  also have "\<dots> = of_nat n_inst"
    using assms(2,3) by (simp add: n_inst_def sum_list_of_nat_unat [of "pre_tiles_touched geom"])
  finally have last: "offs ! (P - 1) = of_nat n_inst" .
  have exact: "sint (offs ! (P - 1)) = int n_inst \<longleftrightarrow> n_inst < 2 ^ 31"
  proof
    assume "sint (offs ! (P - 1)) = int n_inst"
    with sint_less_31 [of "offs ! (P - 1)"] have "int n_inst < 2 ^ 31"
      by simp
    then show "n_inst < 2 ^ 31"
      by (metis of_nat_less_iff of_nat_numeral of_nat_power)
  next
    assume "n_inst < 2 ^ 31"
    then show "sint (offs ! (P - 1)) = int n_inst"
      unfolding last by (rule sint_of_nat_small)
  qed
  show ?thesis
    using ret len nth exact unfolding n_inst_def by (intro exI [of _ ev] exI) auto
qed

section \<open>A call of forward whose kernels stay inside their arrays\<close>

lemma forward_returns:
  assumes "forward cfg P width height colors_precomp background geom mem blend = (ev, Inr res)"
    and "res_device res = Some dev"
  obtains point_offsets last_offset keys_unsorted values_unsorted ranges0 where
    "NUM_CHANNELS cfg = 3 \<or> colors_precomp \<noteq> None"
    and "InclusiveSum (pre_tiles_touched geom) P = Some point_offsets"
    and "read_at point_offsets (int P - 1) = Some last_offset"
    and "res_num_rendered res = sint last_offset"
    and "res_point_offsets res = point_offsets"
    and "0 \<le> sint last_offset"
    and "duplicateWithKeys P (pre_points_xy geom) (pre_depths geom) point_offsets (pre_radii geom)
           (tile_grid_of cfg width height)
           (map (junk_keys mem) [0 ..< nat (sint last_offset)],
            map (junk_values mem) [0 ..< nat (sint last_offset)])
         = Some (keys_unsorted, values_unsorted)"
    and "memset_ranges (junk_ranges mem) (nat (int32 (width * height))) (tile_grid_of cfg width height)
         = Some ranges0"
    and "(if 0 < sint last_offset
          then identifyTileRanges (nat (sint last_offset))
                 (map fst (SortPairs (zip keys_unsorted values_unsorted) 0
                    (nat (sort_end_bit (tile_grid_of cfg width height))))) ranges0
          else Some ranges0) = Some (res_ranges dev)"
    and "render (nat (BLOCK_X cfg)) (nat (BLOCK_Y cfg)) (tile_grid_of cfg width height) (nat width)
           (nat height) blend (res_ranges dev)
           (map snd (SortPairs (zip keys_unsorted values_unsorted) 0
              (nat (sort_end_bit (tile_grid_of cfg width height))))) background
         = Some (res_out_color dev)"
    and "res_point_list_keys dev = map fst (SortPairs (zip keys_unsorted values_unsorted) 0
              (nat (sort_end_bit (tile_grid_of cfg width height))))"
    and "res_point_list dev = map snd (SortPairs (zip keys_unsorted values_unsorted) 0
              (nat (sort_end_bit (tile_grid_of cfg width height))))"
proof -
  define g where "g = tile_grid_of cfg width height"
  have ok: "(NUM_CHANNELS cfg \<noteq> 3 \<and> colors_precomp = None) = False"
  proof (rule ccontr)
    assume "(NUM_CHANNELS cfg \<noteq> 3 \<and> colors_precomp = None) \<noteq> False"
    then have "snd (forward cfg P width height colors_precomp background geom mem blend)
        = Inl ConfigError"
      by (simp add: forward_def Let_def)
    with assms(1) show False
      by simp
  qed
  obtain point_offsets where scan: "InclusiveSum (pre_tiles_touched geom) P = Some point_offsets"
  proof (cases "InclusiveSum (pre_tiles_touched geom) P")
    case None
    have "snd (forward cfg P width height colors_precomp background geom mem blend)
        = Inl OutOfBounds"
      unfolding forward_def Let_def ok None by simp
    with assms(1) show ?thesis
      by simp
  next
    case (Some po)
    then show ?thesis
      by (rule that)
  qed
  obtain last_offset where rd: "read_at point_offsets (int P - 1) = Some last_offset"
  proof (cases "read_at point_offsets (int P - 1)")
    case None
    have "snd (forward cfg P width height colors_precomp background geom mem blend)
        = Inl OutOfBounds"
      unfolding forward_def Let_def ok scan option.case None by simp
    with assms(1) show ?thesis
      by simp
  next
    case (Some lo)
    then show ?thesis
      by (rule that)
  qed
  define R where "R = nat (sint last_offset)"
  define dup where "dup = duplicateWithKeys P (pre_points_xy geom) (pre_depths geom) point_offsets
      (pre_radii geom) g (map (junk_keys mem) [0 ..< R], map (junk_values mem) [0 ..< R])"
  define memset where "memset = memset_ranges (junk_ranges mem) (nat (int32 (width * height))) g"
  define srt where "srt = (\<lambda>ku vu. SortPairs (zip ku vu) 0 (nat (sort_end_bit g)))"
  define D where "D =
     (if sint last_offset < 0 then None
      else
        case dup of
          None \<Rightarrow> None
        | Some (keys_unsorted, values_unsorted) \<Rightarrow>
       (case memset of
          None \<Rightarrow> None
        | Some ranges0 \<Rightarrow>
       (case (if 0 < sint last_offset
              then identifyTileRanges R (map fst (srt keys_unsorted values_unsorted)) ranges0
              else Some ranges0) of
          None \<Rightarrow> None
        | Some ranges \<Rightarrow>
       (case render (nat (BLOCK_X cfg)) (nat (BLOCK_Y cfg)) g (nat width)
               (nat height) blend ranges (map snd (srt keys_unsorted values_unsorted)) background of
          None \<Rightarrow> None
        | Some img \<Rightarrow>
            Some \<lparr>res_point_list_keys = map fst (srt keys_unsorted values_unsorted),
                  res_point_list = map snd (srt keys_unsorted values_unsorted),
                  res_ranges = ranges, res_out_color = img\<rparr>))))"
  have "snd (forward cfg P width height colors_precomp background geom mem blend)
      = Inr \<lparr>res_num_rendered = sint last_offset, res_point_offsets = point_offsets,
             res_device = D\<rparr>"
    unfolding forward_def Let_def ok if_False scan option.case rd D_def dup_def memset_def srt_def
      R_def g_def snd_conv ..
  with assms(1) have res: "res = \<lparr>res_num_rendered = sint last_offset,
      res_point_offsets = point_offsets, res_device = D\<rparr>"
    by simp
  with assms(2) have D: "D = Some dev"
    by simp
  have nonneg: "\<not> sint last_offset < 0"
    using D by (cases "sint last_offset < 0") (simp_all add: D_def)
  obtain keys_unsorted values_unsorted where dup: "dup = Some (keys_unsorted, values_unsorted)"
    using D nonneg by (cases dup) (auto simp: D_def)
  obtain ranges0 where memset: "memset = Some ranges0"
    using D nonneg dup by (cases memset) (auto simp: D_def)
  obtain ranges where ident: "(if 0 < sint last_offset
              then identifyTileRanges R (map fst (srt keys_unsorted values_unsorted)) ranges0
              else Some ranges0) = Some ranges"
    using D nonneg dup memset
    by (cases "if 0 < sint last_offset
              then identifyTileRanges R (map fst (srt keys_unsorted values_unsorted)) ranges0
              else Some ranges0") (simp_all add: D_def)
  obtain img where render: "render (nat (BLOCK_X cfg)) (nat (BLOCK_Y cfg)) g (nat width)
               (nat height) blend ranges (map snd (srt keys_unsorted values_unsorted)) background
      = Some img"
    using D nonneg dup memset ident
    by (cases "render (nat (BLOCK_X cfg)) (nat (BLOCK_Y cfg)) g (nat width)
               (nat height) blend ranges (map snd (srt keys_unsorted values_unsorted)) background")
      (simp_all add: D_def)
  have dev: "dev = \<lparr>res_point_list_keys = map fst (srt keys_unsorted values_unsorted),
                  res_point_list = map snd (srt keys_unsorted values_unsorted),
                  res_ranges = ranges, res_out_color = img\<rparr>"
    using D nonneg dup memset ident render by (simp add: D_def)
  show thesis
  proof (rule that [of point_offsets last_offset keys_unsorted values_unsorted ranges0])
    show "NUM_CHANNELS cfg = 3 \<or> colors_precomp \<noteq> None"
      using ok by simp
    show "InclusiveSum (pre_tiles_touched geom) P = Some point_offsets"
      by (rule scan)
    show "read_at point_offsets (int P - 1) = Some last_offset"
      by (rule rd)
    show "res_num_rendered res = sint last_offset" "res_point_offsets res = point_offsets"
      by (simp_all add: res)
    show "0 \<le> sint last_offset"
      using nonneg by simp
    show "duplicateWithKeys P (pre_points_xy geom) (pre_depths geom) point_offsets (pre_radii geom)
           (tile_grid_of cfg width height)
           (map (junk_keys mem) [0 ..< nat (sint last_offset)],
            map (junk_values mem) [0 ..< nat (sint last_offset)])
         = Some (keys_unsorted, values_unsorted)"
      using dup unfolding dup_def R_def g_def .
    show "memset_ranges (junk_ranges mem) (nat (int32 (width * height))) (tile_grid_of cfg width height)
         = Some ranges0"
      using memset unfolding memset_def g_def .
    show "(if 0 < sint last_offset
          then identifyTileRanges (nat (sint last_offset))
                 (map fst (SortPairs (zip keys_unsorted values_unsorted) 0
                    (nat (sort_end_bit (tile_grid_of cfg width height))))) ranges0
          else Some ranges0) = Some (res_ranges dev)"
      using ident unfolding srt_def R_def g_def by (simp add: dev)
    show "render (nat (BLOCK_X cfg)) (nat (BLOCK_Y cfg)) (tile_grid_of cfg width height) (nat width)
           (nat height) blend (res_ranges dev)
           (map snd (SortPairs (zip keys_unsorted values_unsorted) 0
              (nat (sort_end_bit (tile_grid_of cfg width height))))) background
         = Some (res_out_color dev)"
      using render unfolding srt_def g_def by (simp add: dev)
    show "res_point_list_keys dev = map fst (SortPairs (zip keys_unsorted values_unsorted) 0
              (nat (sort_end_bit (tile_grid_of cfg width height))))"
      "res_point_list dev = map snd (SortPairs (zip keys_unsorted values_unsorted) 0
              (nat (sort_end_bit (tile_grid_of cfg width height))))"
      by (simp_all add: dev srt_def g_def)
  qed
qed

text \<open>What such a call has established about the instance count.\<close>

lemma forward_instance_count:
  assumes ret: "forward cfg P width height colors_precomp background geom mem blend = (ev, Inr res)"
    and dev: "res_device res = Some dev"
    and sized: "geometry_sized geom P"
    and touched: "tiles_touched_ok (tile_grid_of cfg width height) geom P"
  defines "n_inst \<equiv> sum_list (map unat (pre_tiles_touched geom))"
  shows "1 \<le> P" and "n_inst < 2 ^ 31" and "res_num_rendered res = int n_inst"
    and "res_point_offsets res = inclusive_scan 0 (pre_tiles_touched geom)"
    and "res_point_offsets res ! (P - 1) = of_nat n_inst"
    and "\<exists>keys_unsorted values_unsorted.
           keys_unsorted = concat (map (prim_keys (tile_grid_of cfg width height) (pre_radii geom)
               (pre_points_xy geom) (pre_depths geom)) [0 ..< P])
         \<and> values_unsorted = concat (map (prim_values (tile_grid_of cfg width height) (pre_radii geom)
               (pre_points_xy geom)) [0 ..< P])
         \<and> length keys_unsorted = n_inst \<and> length values_unsorted = n_inst
         \<and> res_point_list_keys dev = map fst (SortPairs (zip keys_unsorted values_unsorted) 0
              (nat (sort_end_bit (tile_grid_of cfg width height))))
         \<and> res_point_list dev = map snd (SortPairs (zip keys_unsorted values_unsorted) 0
              (nat (sort_end_bit (tile_grid_of cfg width height))))"
proof -
  define grid where "grid = tile_grid_of cfg width height"
  define len where "len = (\<lambda>i. length (prim_tiles grid (pre_radii geom) (pre_points_xy geom) i))"
  define K where "K = concat (map (prim_keys grid (pre_radii geom) (pre_points_xy geom)
      (pre_depths geom)) [0 ..< P])"
  define V where "V = concat (map (prim_values grid (pre_radii geom) (pre_points_xy geom)) [0 ..< P])"
  from sized have sz: "length (pre_radii geom) = P" "length (pre_points_xy geom) = P"
    "length (pre_depths geom) = P" "length (pre_tiles_touched geom) = P"
    by (simp_all add: geometry_sized_def)
  have tt: "unat (pre_tiles_touched geom ! i) = len i" if "i < P" for i
    using touched that by (simp add: tiles_touched_ok_def len_def grid_def)
  have "map unat (pre_tiles_touched geom) = map len [0 ..< P]"
    using tt sz(4) by (intro nth_equalityI) simp_all
  then have n_inst: "n_inst = sum_list (map len [0 ..< P])"
    by (simp add: n_inst_def)
  have lenKV: "length K = n_inst" "length V = n_inst"
    by (simp_all add: K_def V_def n_inst len_def length_concat comp_def)
  from ret dev obtain point_offsets last_offset keys_unsorted values_unsorted where
    scan: "InclusiveSum (pre_tiles_touched geom) P = Some point_offsets"
    and rd: "read_at point_offsets (int P - 1) = Some last_offset"
    and nonneg: "0 \<le> sint last_offset"
    and dup: "duplicateWithKeys P (pre_points_xy geom) (pre_depths geom) point_offsets (pre_radii geom)
           grid (map (junk_keys mem) [0 ..< nat (sint last_offset)],
            map (junk_values mem) [0 ..< nat (sint last_offset)])
         = Some (keys_unsorted, values_unsorted)"
    and res: "res_num_rendered res = sint last_offset" "res_point_offsets res = point_offsets"
      "res_point_list_keys dev = map fst (SortPairs (zip keys_unsorted values_unsorted) 0
              (nat (sort_end_bit grid)))"
      "res_point_list dev = map snd (SortPairs (zip keys_unsorted values_unsorted) 0
              (nat (sort_end_bit grid)))"
    unfolding grid_def by (rule forward_returns) blast
  from scan have offs: "point_offsets = inclusive_scan 0 (take P (pre_tiles_touched geom))"
    by (simp add: InclusiveSum_def split: if_splits)
  then have len_offs: "length point_offsets = P"
    by (simp add: sz)
  from rd len_offs show P1: "1 \<le> P"
    by (simp add: read_at_def split: if_splits)
  from rd P1 have last: "last_offset = point_offsets ! (P - 1)"
    by (simp add: read_at_def nat_diff_distrib' split: if_splits)
  define R where "R = nat (sint last_offset)"
  have R31: "R < 2 ^ 31"
    using sint_less_31 [of last_offset] nonneg by (simp add: R_def)
  have "duplicateWithKeys P (pre_points_xy geom) (pre_depths geom) point_offsets (pre_radii geom)
           grid (map (junk_keys mem) [0 ..< R], map (junk_values mem) [0 ..< R]) =
     (if sum_list (map len [0 ..< P]) \<le> length (map (junk_keys mem) [0 ..< R])
      then Some (write_run (map (junk_keys mem) [0 ..< R]) 0 K,
                 write_run (map (junk_values mem) [0 ..< R]) 0 V)
      else None)"
    unfolding len_def K_def V_def
  proof (rule duplicateWithKeys_eq [OF _ _ _ _ offs])
    show "P \<le> length (pre_radii geom)" "P \<le> length (pre_points_xy geom)"
      "P \<le> length (pre_depths geom)" "P \<le> length (pre_tiles_touched geom)"
      by (simp_all add: sz)
    show "unat (pre_tiles_touched geom ! i)
        = length (prim_tiles grid (pre_radii geom) (pre_points_xy geom) i)" if "i < P" for i
      using tt [OF that] by (simp add: len_def)
    show "length (map (junk_keys mem) [0 ..< R]) = length (map (junk_values mem) [0 ..< R])"
      by simp
    show "length (map (junk_keys mem) [0 ..< R]) < 2 ^ 32"
      using R31 by simp
  qed
  with dup have fit: "n_inst \<le> R"
    and kv: "keys_unsorted = write_run (map (junk_keys mem) [0 ..< R]) 0 K"
      "values_unsorted = write_run (map (junk_values mem) [0 ..< R]) 0 V"
    by (simp_all add: n_inst R_def split: if_splits)
  from fit R31 show n_inst31: "n_inst < 2 ^ 31"
    by simp
  have "point_offsets ! (P - 1) = sum_list (take P (take P (pre_tiles_touched geom)))"
    using P1 sz(4) by (simp add: offs inclusive_scan_nth)
  also have "\<dots> = of_nat (sum_list (map len [0 ..< P]))"
    by (rule sum_list_take_of_nat) (use sz tt in simp_all)
  finally have last_n_inst: "last_offset = of_nat n_inst"
    by (simp add: last n_inst)
  then show "res_num_rendered res = int n_inst"
    using n_inst31 by (simp add: res sint_of_nat_small)
  then have "R = n_inst"
    by (simp add: R_def res)
  with kv lenKV have "keys_unsorted = K" "values_unsorted = V"
    by (simp_all add: write_run_all)
  with res lenKV show "\<exists>keys_unsorted values_unsorted.
           keys_unsorted = concat (map (prim_keys (tile_grid_of cfg width height) (pre_radii geom)
               (pre_points_xy geom) (pre_depths geom)) [0 ..< P])
         \<and> values_unsorted = concat (map (prim_values (tile_grid_of cfg width height) (pre_radii geom)
               (pre_points_xy geom)) [0 ..< P])
         \<and> length keys_unsorted = n_inst \<and> length values_unsorted = n_inst
         \<and> res_point_list_keys dev = map fst (SortPairs (zip keys_unsorted values_unsorted) 0
              (nat (sort_end_bit (tile_grid_of cfg width height))))
         \<and> res_point_list dev = map snd (SortPairs (zip keys_unsorted values_unsorted) 0
              (nat (sort_end_bit (tile_grid_of cfg width height))))"
    by (simp add: K_def V_def grid_def)
  show "res_point_offsets res = inclusive_scan 0 (pre_tiles_touched geom)"
    by (simp add: res offs sz)
  show "res_point_offsets res ! (P - 1) = of_nat n_inst"
    using last last_n_inst by (simp add: res)
qed

section \<open>The worked example, stage by stage\<close>

lemma example_grid: "tile_grid_of example_cfg 17 1 = \<lparr>d3x = 2, d3y = 1\<rparr>"
  unfolding example_cfg_def by code_simp

lemma example_end_bit: "nat (sort_end_bit \<lparr>d3x = 2, d3y = 1\<rparr>) = 34"
  by code_simp

lemma example_scan: "InclusiveSum (pre_tiles_touched example_geom) 3 = Some [2, 2, 3]"
  unfolding example_geom_def by code_simp

lemma example_dup:
  "duplicateWithKeys 3 (pre_points_xy example_geom) (pre_depths example_geom) [2, 2, 3]
     (pre_radii example_geom) \<lparr>d3x = 2, d3y = 1\<rparr>
     (map (junk_keys example_mem) [0 ..< 3], map (junk_values example_mem) [0 ..< 3])
   = Some ([0x40000000, 0x140000000, 0x13F800000], [0, 0, 2])"
  unfolding example_geom_def example_mem_def by code_simp

lemma example_sort:
  "SortPairs (zip [0x40000000, 0x140000000, 0x13F800000] [0, 0, 2]) 0 34
   = [(0x40000000, 0), (0x13F800000, 2), (0x140000000, 0)]"
  by code_simp

lemma example_memset:
  "memset_ranges (junk_ranges example_mem) 17 \<lparr>d3x = 2, d3y = 1\<rparr>
   = Some (replicate 2 \<lparr>u2x = 0, u2y = 0\<rparr> @ replicate 15 \<lparr>u2x = 3, u2y = 4\<rparr>)"
  unfolding example_mem_def by code_simp

lemma example_ranges:
  assumes "keys = [0x40000000, 0x13F800000, 0x140000000]"
    and "ranges0 = replicate 2 \<lparr>u2x = 0, u2y = 0\<rparr> @ replicate 15 \<lparr>u2x = 3, u2y = 4\<rparr>"
  shows "identifyTileRanges 3 keys ranges0
   = Some ([\<lparr>u2x = 0, u2y = 1\<rparr>, \<lparr>u2x = 1, u2y = 3\<rparr>] @ replicate 15 \<lparr>u2x = 3, u2y = 4\<rparr>)"
  unfolding assms by code_simp

lemma example_render:
  assumes "h = 1"
    and "ranges = [\<lparr>u2x = 0, u2y = 1\<rparr>, \<lparr>u2x = 1, u2y = 3\<rparr>] @ replicate 15 \<lparr>u2x = 3, u2y = 4\<rparr>"
  shows "render 16 16 \<lparr>d3x = 2, d3y = 1\<rparr> 17 h example_blend ranges [0, 2, 0] [1, 1, 1]
   = Some (replicate 16 [1 / 2, 1 / 2, 1 / 2] @ [[1 / 4, 1 / 4, 1 / 4]])"
  unfolding assms example_blend_def by code_simp


lemma example_cfg_simps:
  "NUM_CHANNELS example_cfg = 3" "BLOCK_X example_cfg = 16" "BLOCK_Y example_cfg = 16"
  by (simp_all add: example_cfg_def)

lemma example_forward:
  "\<exists>ev. forward example_cfg 3 17 1 (None :: unit option) [1, 1, 1] example_geom example_mem
       example_blend =
     (ev, Inr \<lparr>res_num_rendered = 3, res_point_offsets = [2, 2, 3],
         res_device = Some
           \<lparr>res_point_list_keys = [0x40000000, 0x13F800000, 0x140000000],
            res_point_list = [0, 2, 0],
            res_ranges = [\<lparr>u2x = 0, u2y = 1\<rparr>, \<lparr>u2x = 1, u2y = 3\<rparr>] @ replicate 15 \<lparr>u2x = 3, u2y = 4\<rparr>,
            res_out_color = replicate 16 [1 / 2, 1 / 2, 1 / 2] @ [[1 / 4, 1 / 4, 1 / 4]]\<rparr>\<rparr>)"
proof -
  have rd: "read_at [2, 2, 3 :: uint32_t] (int 3 - 1) = Some 3"
    by (simp add: read_at_def)
  have n: "sint (3 :: uint32_t) = 3" "nat (int32 (17 * 1)) = 17" "nat (17 :: int) = 17"
    "nat (1 :: int) = 1" "nat (16 :: int) = 16" "nat (3 :: int) = 3"
    by (simp_all add: int32_def)
  show ?thesis
    unfolding forward_def Let_def example_cfg_simps example_grid example_end_bit example_scan
      option.case rd n example_dup prod.case example_sort
    by (simp add: example_memset example_ranges example_render)
qed

lemma example_sized: "geometry_sized example_geom 3"
  by (simp add: geometry_sized_def example_geom_def)

lemma example_touched: "tiles_touched_ok (tile_grid_of example_cfg 17 1) example_geom 3"
  unfolding example_grid unfolding example_geom_def by code_simp

theorem forward_num_rendered_sum_mod_witness:
  "(NUM_CHANNELS example_cfg = 3 \<or> (None :: unit option) \<noteq> None)
   \<and> 1 \<le> (3 :: nat) \<and> length (pre_tiles_touched example_geom) = 3
   \<and> sum_list (map unat (pre_tiles_touched example_geom)) = 3
   \<and> (\<exists>ev res. forward example_cfg 3 17 1 (None :: unit option) [1, 1, 1] example_geom example_mem
         example_blend = (ev, Inr res)
       \<and> length (res_point_offsets res) = 3
       \<and> res_num_rendered res = sint (res_point_offsets res ! 2)
       \<and> res_num_rendered res = 3)"
proof -
  have cfg: "NUM_CHANNELS example_cfg = 3 \<or> (None :: unit option) \<noteq> None"
    by (simp add: example_cfg_simps)
  have len: "length (pre_tiles_touched example_geom) = 3"
    by (simp add: example_geom_def)
  have total: "sum_list (map unat (pre_tiles_touched example_geom)) = 3"
    by (simp add: example_geom_def)
  from forward_num_rendered_sum_mod [OF cfg _ len, of 17 1 "[1, 1, 1]" example_mem example_blend]
  show ?thesis
    using cfg len total by auto
qed

section \<open>Counting in a sorted list\<close>

lemma length_filter_split:
  assumes "\<forall>x \<in> set (take k ts). P x" and "\<forall>x \<in> set (drop k ts). \<not> P x" and "k \<le> length ts"
  shows "length (filter P ts) = k"
proof -
  have "filter P ts = filter P (take k ts) @ filter P (drop k ts)"
    by (metis append_take_drop_id filter_append)
  also have "\<dots> = take k ts"
    using assms(1,2) by (simp add: filter_empty_conv)
  finally show ?thesis
    using assms(3) by simp
qed

lemma sorted_take_le:
  assumes "sorted ts" and "k < length ts" and "x \<in> set (take (Suc k) ts)"
  shows "x \<le> (ts ! k :: nat)"
proof -
  from assms(3) obtain i where "i < Suc k" "i < length ts" "x = ts ! i"
    by (auto simp: in_set_conv_nth)
  then show ?thesis
    using assms(1,2) by (simp add: sorted_nth_mono)
qed

lemma sorted_drop_ge:
  assumes "sorted ts" and "k < length ts" and "x \<in> set (drop k ts)"
  shows "(ts ! k :: nat) \<le> x"
proof -
  from assms(3) obtain i where "i < length ts - k" "x = ts ! (k + i)"
    by (auto simp: in_set_conv_nth)
  then show ?thesis
    using assms(1,2) by (simp add: sorted_nth_mono)
qed

lemma count_less_at_change:
  fixes ts :: "nat list"
  assumes "sorted ts" and "k < length ts" and "0 < k" and "ts ! (k - 1) \<noteq> ts ! k"
  shows "length (filter (\<lambda>u. u < ts ! k) ts) = k"
    and "length (filter (\<lambda>u. u \<le> ts ! (k - 1)) ts) = k"
    and "ts ! k \<notin> set (take k ts)"
proof -
  from assms have lt: "ts ! (k - 1) < ts ! k"
    using sorted_nth_mono [of ts "k - 1" k] by simp
  have before: "x \<le> ts ! (k - 1)" if "x \<in> set (take k ts)" for x
    using sorted_take_le [of ts "k - 1" x] assms that by simp
  have after: "ts ! k \<le> x" if "x \<in> set (drop k ts)" for x
    using sorted_drop_ge [of ts k x] assms that by simp
  show "length (filter (\<lambda>u. u < ts ! k) ts) = k"
    using before after lt assms(2) by (intro length_filter_split) force+
  show "length (filter (\<lambda>u. u \<le> ts ! (k - 1)) ts) = k"
    using before after lt assms(2) by (intro length_filter_split) force+
  show "ts ! k \<notin> set (take k ts)"
    using before lt by force
qed

lemma count_less_first:
  fixes ts :: "nat list"
  assumes "sorted ts" and "0 < length ts"
  shows "length (filter (\<lambda>u. u < ts ! 0) ts) = 0"
proof -
  have "\<not> x < ts ! 0" if "x \<in> set ts" for x
    using sorted_drop_ge [of ts 0 x] assms that by simp
  then show ?thesis
    by (simp add: filter_empty_conv)
qed

lemma count_le_last:
  fixes ts :: "nat list"
  assumes "sorted ts" and "0 < length ts"
  shows "length (filter (\<lambda>u. u \<le> ts ! (length ts - 1)) ts) = length ts"
proof -
  have "x \<le> ts ! (length ts - 1)" if "x \<in> set ts" for x
    using sorted_take_le [of ts "length ts - 1" x] assms that by simp
  then show ?thesis
    by simp
qed


section \<open>One thread of identifyTileRanges\<close>

lemma map_upt_update:
  "c < T \<Longrightarrow> (map f [0 ..< T])[c := v] = map (f(c := v)) [0 ..< T]"
  by (rule nth_equalityI) (auto simp: nth_list_update)

lemma set_x_map:
  "c < T \<Longrightarrow> set_x (map f [0 ..< T]) c v = Some (map (f(c := (f c)\<lparr>u2x := v\<rparr>)) [0 ..< T])"
  by (simp add: set_x_def map_upt_update)

lemma set_y_map:
  "c < T \<Longrightarrow> set_y (map f [0 ..< T]) c v = Some (map (f(c := (f c)\<lparr>u2y := v\<rparr>)) [0 ..< T])"
  by (simp add: set_y_def map_upt_update)

lemma identifyTileRanges_thread_map:
  assumes "k < length keys" and "\<forall>key \<in> set keys. tile_of key < T"
  shows "identifyTileRanges_thread (length keys) keys k (map f [0 ..< T]) =
     Some (map (range_update k (length keys) (tile_of (keys ! k)) (tile_of (keys ! (k - 1))) f)
       [0 ..< T])"
proof -
  from assms have c: "tile_of (keys ! k) < T"
    by simp
  from assms have p: "tile_of (keys ! (k - 1)) < T"
    by simp
  from assms(1) have rd: "nth_opt keys k = Some (keys ! k)" "nth_opt keys (k - 1) = Some (keys ! (k - 1))"
    by (simp_all add: nth_opt_def)
  show ?thesis
    using assms(1) c p rd
    by (auto simp: identifyTileRanges_thread_def range_update_def Let_def set_x_map set_y_map)
qed

lemma uint2_eq_iff: "a = b \<longleftrightarrow> u2x a = u2x b \<and> u2y a = u2y b" for a b :: uint2
  by (cases a, cases b) simp

lemma uint2_update_x: "r\<lparr>u2x := a\<rparr> = \<lparr>u2x = a, u2y = u2y r\<rparr>" for r :: uint2
  by (simp add: uint2_eq_iff)

lemma uint2_update_y: "r\<lparr>u2y := b\<rparr> = \<lparr>u2x = u2x r, u2y = b\<rparr>" for r :: uint2
  by (simp add: uint2_eq_iff)

lemma ranges_after_step:
  fixes ts :: "nat list"
  assumes srt: "sorted ts" and k: "k < length ts"
  shows "range_update k (length ts) (ts ! k) (ts ! (k - 1)) (ranges_after k ts ranges0)
         = ranges_after (Suc k) ts ranges0"
proof (rule ext)
  fix t
  define c where "c = ts ! k"
  define p where "p = ts ! (k - 1)"
  define f where "f = ranges_after k ts ranges0"
  define lt where "lt = (\<lambda>u. (of_nat (length (filter (\<lambda>v. v < u) ts)) :: uint32_t))"
  define le where "le = (\<lambda>u. (of_nat (length (filter (\<lambda>v. v \<le> u) ts)) :: uint32_t))"
  define seen where "seen = set (take k ts)"
  define final where "final \<longleftrightarrow> Suc k = length ts"
  have mem: "u \<in> set (take (Suc k) ts) \<longleftrightarrow> u \<in> seen \<or> u = c" for u
    using k by (auto simp: take_Suc_conv_app_nth c_def seen_def)
  have le_final: "le c = of_nat (length ts)" if final
    using count_le_last [OF srt] k that by (cases ts) (auto simp: c_def final_def le_def)
  have lastk: "k = length ts - 1 \<longleftrightarrow> final"
    using k by (auto simp: final_def)
  have A: "f u = (if u \<in> seen then \<lparr>u2x = lt u, u2y = (if u \<noteq> p then le u else u2y (ranges0 ! u))\<rparr>
       else ranges0 ! u)" for u
    using k by (simp add: f_def ranges_after_def p_def seen_def lt_def le_def)
  have E: "ranges_after (Suc k) ts ranges0 u =
      (if u \<in> seen \<or> u = c
       then \<lparr>u2x = lt u, u2y = (if final \<or> u \<noteq> c then le u else u2y (ranges0 ! u))\<rparr>
       else ranges0 ! u)" for u
    unfolding ranges_after_def mem by (simp add: c_def final_def lt_def le_def)
  define g where g_orig: "g = range_update k (length ts) (ts ! k) (ts ! (k - 1)) (ranges_after k ts ranges0)"
  have g_def: "g = (let f' = f(p := (f p)\<lparr>u2y := of_nat k\<rparr>);
              f1 = (if k = 0 then f(c := (f c)\<lparr>u2x := 0\<rparr>)
                    else if c \<noteq> p then f'(c := (f' c)\<lparr>u2x := of_nat k\<rparr>)
                    else f)
          in if final then f1(c := (f1 c)\<lparr>u2y := of_nat (length ts)\<rparr>) else f1)"
    unfolding g_orig range_update_def c_def p_def f_def lastk [symmetric] ..
  consider (first) "k = 0" | (change) "0 < k" "c \<noteq> p" | (same) "0 < k" "c = p"
    by blast
  then have "g t = ranges_after (Suc k) ts ranges0 t"
  proof cases
    case first
    have cnt: "lt c = 0"
      using count_less_first [OF srt] k first by (simp add: c_def lt_def)
    have none: "u \<notin> seen" for u
      using first by (simp add: seen_def)
    have g: "g = (if final then f(c := \<lparr>u2x = 0, u2y = of_nat (length ts)\<rparr>)
                  else f(c := \<lparr>u2x = 0, u2y = u2y (ranges0 ! c)\<rparr>))"
      using first by (simp add: g_def A none uint2_update_x uint2_update_y)
    show ?thesis
      by (simp add: g E A none cnt le_final)
  next
    case change
    have cnt: "lt c = of_nat k" "le p = of_nat k" "c \<notin> seen"
      using count_less_at_change [OF srt k change(1)] change(2)
      by (simp_all add: c_def p_def lt_def le_def seen_def)
    have pmem: "p \<in> seen"
      using change(1) k by (auto simp: in_set_conv_nth p_def seen_def intro!: exI [of _ "k - 1"])
    have fp: "(f p)\<lparr>u2y := of_nat k\<rparr> = \<lparr>u2x = lt p, u2y = le p\<rparr>"
      by (simp add: A pmem cnt uint2_update_y)
    have fpx: "u2x (f p) = lt p"
      by (simp add: A pmem)
    have fc: "f c = ranges0 ! c"
      by (simp add: A cnt)
    have g: "g = (if final then f(p := \<lparr>u2x = lt p, u2y = le p\<rparr>, c := \<lparr>u2x = lt c, u2y = le c\<rparr>)
                  else f(p := \<lparr>u2x = lt p, u2y = le p\<rparr>, c := \<lparr>u2x = lt c, u2y = u2y (ranges0 ! c)\<rparr>))"
      using change by (simp add: g_def Let_def fpx fc cnt le_final uint2_update_x uint2_update_y)
    show ?thesis
    proof (cases "t = c \<or> t = p")
      case True
      then show ?thesis
        using change pmem by (auto simp: g E)
    next
      case False
      then show ?thesis
        by (simp add: g E A)
    qed
  next
    case same
    have cmem: "c \<in> seen"
      using same k by (auto simp: in_set_conv_nth p_def seen_def intro!: exI [of _ "k - 1"])
    have fc: "f c = \<lparr>u2x = lt c, u2y = u2y (ranges0 ! c)\<rparr>"
      using same cmem by (simp add: A)
    have g: "g = (if final then f(c := \<lparr>u2x = lt c, u2y = le c\<rparr>) else f)"
      using same fc le_final by (auto simp: g_def Let_def uint2_update_x uint2_update_y)
    show ?thesis
    proof (cases "t = c")
      case True
      then show ?thesis
        using cmem by (simp add: g E fc)
    next
      case False
      then show ?thesis
        using same A [of t] by (auto simp: g E)
    qed
  qed
  then show "range_update k (length ts) (ts ! k) (ts ! (k - 1)) (ranges_after k ts ranges0) t
         = ranges_after (Suc k) ts ranges0 t"
    by (simp only: g_orig)
qed

section \<open>The whole launch of identifyTileRanges\<close>

lemma ranges_after_0: "map (ranges_after 0 ts ranges0) [0 ..< length ranges0] = ranges0"
  by (rule nth_equalityI) (simp_all add: ranges_after_def)

lemma identifyTileRanges_prefix:
  assumes "sorted (map tile_of keys)" and "\<forall>key \<in> set keys. tile_of key < length ranges0"
    and "k \<le> length keys"
  shows "run_threads (identifyTileRanges_thread (length keys) keys) [0 ..< k] ranges0 =
     Some (map (ranges_after k (map tile_of keys) ranges0) [0 ..< length ranges0])"
  using assms(3)
proof (induction k)
  case 0
  then show ?case
    by (simp add: ranges_after_0)
next
  case (Suc k)
  then have k: "k < length keys"
    by simp
  have tiles: "tile_of (keys ! k) = map tile_of keys ! k"
    "tile_of (keys ! (k - 1)) = map tile_of keys ! (k - 1)"
    using k by simp_all
  have "identifyTileRanges_thread (length keys) keys k
      (map (ranges_after k (map tile_of keys) ranges0) [0 ..< length ranges0])
    = Some (map (ranges_after (Suc k) (map tile_of keys) ranges0) [0 ..< length ranges0])"
    using ranges_after_step [OF assms(1), of k ranges0] k
    by (simp add: identifyTileRanges_thread_map [OF k assms(2)])
  then show ?case
    using Suc.IH k by (simp add: run_threads_append)
qed

lemma identifyTileRanges_eq:
  assumes "sorted (map tile_of keys)" and "\<forall>key \<in> set keys. tile_of key < length ranges0"
  shows "identifyTileRanges (length keys) keys ranges0 =
     Some (map (\<lambda>t. if t \<in> tile_of ` set keys
                      then \<lparr>u2x = of_nat (length (filter (\<lambda>key. tile_of key < t) keys)),
                            u2y = of_nat (length (filter (\<lambda>key. tile_of key \<le> t) keys))\<rparr>
                      else ranges0 ! t)
            [0 ..< length ranges0])"
proof -
  have idle: "run_threads (identifyTileRanges_thread (length keys) keys)
      [length keys ..< ((length keys + 255) div 256) * 256] s = Some s" for s
    by (rule run_threads_idle) (simp add: identifyTileRanges_thread_def)
  have "ranges_after (length keys) (map tile_of keys) ranges0 t =
      (if t \<in> tile_of ` set keys
       then \<lparr>u2x = of_nat (length (filter (\<lambda>key. tile_of key < t) keys)),
             u2y = of_nat (length (filter (\<lambda>key. tile_of key \<le> t) keys))\<rparr>
       else ranges0 ! t)" for t
    by (simp add: ranges_after_def filter_map comp_def)
  then show ?thesis
    using identifyTileRanges_prefix [OF assms order_refl]
    by (simp add: identifyTileRanges_def launched_split run_threads_append idle)
qed


lemma sorted_count_less:
  fixes ts :: "nat list"
  assumes "sorted ts"
  shows "i < length (filter (\<lambda>u. u < t) ts) \<longleftrightarrow> i < length ts \<and> ts ! i < t"
  using assms
proof (induction ts arbitrary: i)
  case Nil
  then show ?case by simp
next
  case (Cons x xs)
  show ?case
  proof (cases "x < t")
    case True
    with Cons show ?thesis
      by (cases i) simp_all
  next
    case False
    with Cons.prems have "\<forall>u \<in> set (x # xs). \<not> u < t"
      by auto
    then have none: "\<not> u < t" if "u \<in> set (x # xs)" for u
      using that by blast
    have "filter (\<lambda>u. u < t) (x # xs) = []"
      using none by (simp add: filter_empty_conv)
    moreover have "\<not> (x # xs) ! i < t" if "i < length (x # xs)"
      using none [OF nth_mem [OF that]] .
    ultimately show ?thesis
      by auto
  qed
qed

lemma sorted_count_le:
  fixes ts :: "nat list"
  assumes "sorted ts"
  shows "i < length (filter (\<lambda>u. u \<le> t) ts) \<longleftrightarrow> i < length ts \<and> ts ! i \<le> t"
  using assms
proof (induction ts arbitrary: i)
  case Nil
  then show ?case by simp
next
  case (Cons x xs)
  show ?case
  proof (cases "x \<le> t")
    case True
    with Cons show ?thesis
      by (cases i) simp_all
  next
    case False
    with Cons.prems have "\<forall>u \<in> set (x # xs). \<not> u \<le> t"
      by auto
    then have none: "\<not> u \<le> t" if "u \<in> set (x # xs)" for u
      using that by blast
    have "filter (\<lambda>u. u \<le> t) (x # xs) = []"
      using none by (simp add: filter_empty_conv)
    moreover have "\<not> (x # xs) ! i \<le> t" if "i < length (x # xs)"
      using none [OF nth_mem [OF that]] .
    ultimately show ?thesis
      by auto
  qed
qed

lemma unat_of_nat_count:
  assumes "length keys < 2 ^ 31"
  shows "unat (of_nat (length (filter P keys)) :: uint32_t) = length (filter P keys)"
proof -
  have "length (filter P keys) \<le> length keys"
    by simp
  also have "length keys < 2 ^ 32"
    using assms by simp
  finally have "length (filter P keys) < 2 ^ 32" .
  then show ?thesis
    by (simp add: unat_of_nat)
qed

text \<open>The range of every tile holds the instances of that tile, and no others.\<close>

lemma identifyTileRanges_ranges:
  assumes srt: "sorted (map tile_of keys)" and len: "length keys < 2 ^ 31"
    and bound: "\<forall>key \<in> set keys. tile_of key < T"
  shows "\<exists>ranges. identifyTileRanges (length keys) keys (replicate T \<lparr>u2x = 0, u2y = 0\<rparr>) = Some ranges
      \<and> length ranges = T
      \<and> (\<forall>t < T. t \<notin> tile_of ` set keys \<longrightarrow> ranges ! t = \<lparr>u2x = 0, u2y = 0\<rparr>)
      \<and> (\<forall>t < T. \<forall>i. i \<in> {unat (u2x (ranges ! t)) ..< unat (u2y (ranges ! t))}
            \<longleftrightarrow> i < length keys \<and> tile_of (keys ! i) = t)"
proof -
  define ranges where "ranges = map (\<lambda>t. if t \<in> tile_of ` set keys
                      then \<lparr>u2x = of_nat (length (filter (\<lambda>key. tile_of key < t) keys)),
                            u2y = of_nat (length (filter (\<lambda>key. tile_of key \<le> t) keys))\<rparr>
                      else \<lparr>u2x = 0, u2y = 0\<rparr>) [0 ..< T]"
  have run: "identifyTileRanges (length keys) keys (replicate T \<lparr>u2x = 0, u2y = 0\<rparr>) = Some ranges"
    using identifyTileRanges_eq [OF srt, of "replicate T \<lparr>u2x = 0, u2y = 0\<rparr>"] bound
    by (simp add: ranges_def cong: map_cong)
  have cnt: "length (filter (\<lambda>key. tile_of key < t) keys) = length (filter (\<lambda>u. u < t) (map tile_of keys))"
    "length (filter (\<lambda>key. tile_of key \<le> t) keys) = length (filter (\<lambda>u. u \<le> t) (map tile_of keys))"
    for t
    by (simp_all add: filter_map comp_def)
  have inside: "i \<in> {unat (u2x (ranges ! t)) ..< unat (u2y (ranges ! t))}
      \<longleftrightarrow> i < length keys \<and> tile_of (keys ! i) = t" if "t < T" for t i
  proof (cases "t \<in> tile_of ` set keys")
    case False
    then have "tile_of (keys ! i) \<noteq> t" if "i < length keys"
      using that nth_mem by blast
    with False that \<open>t < T\<close> show ?thesis
      by (auto simp: ranges_def)
  next
    case True
    then have "ranges ! t = \<lparr>u2x = of_nat (length (filter (\<lambda>key. tile_of key < t) keys)),
        u2y = of_nat (length (filter (\<lambda>key. tile_of key \<le> t) keys))\<rparr>"
      using that by (simp add: ranges_def)
    then show ?thesis
      using sorted_count_less [OF srt, of i t] sorted_count_le [OF srt, of i t]
      by (auto simp: unat_of_nat_count [OF len] cnt)
  qed
  show ?thesis
    using run inside by (intro exI [of _ ranges]) (simp add: ranges_def)
qed


text \<open>
  C2: on a key list of length \<open>R\<close> sorted by tile, with every tile inside a zero-filled table of
  \<open>T\<close> entries, the resolver returns a table in which every range has its start at or before
  its end, the ranges of different tiles do not meet, together they make up \<open>[0, R)\<close>, and a tile
  of no instance keeps its start equal to its end.
\<close>

theorem identifyTileRanges_partition:
  assumes "sorted (map tile_of keys)" and "length keys = R" and "R < 2 ^ 31"
    and "\<forall>key \<in> set keys. tile_of key < T"
  shows "\<exists>ranges. identifyTileRanges R keys (replicate T \<lparr>u2x = 0, u2y = 0\<rparr>) = Some ranges
      \<and> length ranges = T
      \<and> (\<forall>t < T. unat (u2x (ranges ! t)) \<le> unat (u2y (ranges ! t)))
      \<and> (\<forall>t < T. \<forall>t' < T. t \<noteq> t' \<longrightarrow>
            {unat (u2x (ranges ! t)) ..< unat (u2y (ranges ! t))}
            \<inter> {unat (u2x (ranges ! t')) ..< unat (u2y (ranges ! t'))} = {})
      \<and> (\<Union>t \<in> {0 ..< T}. {unat (u2x (ranges ! t)) ..< unat (u2y (ranges ! t))}) = {0 ..< R}
      \<and> (\<forall>t < T. t \<notin> tile_of ` set keys \<longrightarrow> u2x (ranges ! t) = u2y (ranges ! t))"
proof -
  from assms(2,3) have len: "length keys < 2 ^ 31"
    by simp
  from identifyTileRanges_ranges [OF assms(1) len assms(4)] obtain ranges where
    run: "identifyTileRanges (length keys) keys (replicate T \<lparr>u2x = 0, u2y = 0\<rparr>) = Some ranges"
    and size: "length ranges = T"
    and empty: "\<And>t. t < T \<Longrightarrow> t \<notin> tile_of ` set keys \<Longrightarrow> ranges ! t = \<lparr>u2x = 0, u2y = 0\<rparr>"
    and inside: "\<And>t i. t < T \<Longrightarrow> i \<in> {unat (u2x (ranges ! t)) ..< unat (u2y (ranges ! t))}
            \<longleftrightarrow> i < length keys \<and> tile_of (keys ! i) = t"
    by blast
  have order: "unat (u2x (ranges ! t)) \<le> unat (u2y (ranges ! t))" if "t < T" for t
  proof (cases "t \<in> tile_of ` set keys")
    case False
    then show ?thesis
      using empty [OF that] by simp
  next
    case True
    then obtain i where "i < length keys" "tile_of (keys ! i) = t"
      by (auto simp: in_set_conv_nth)
    then have "i \<in> {unat (u2x (ranges ! t)) ..< unat (u2y (ranges ! t))}"
      using inside [OF that] by simp
    then show ?thesis
      by simp
  qed
  have disjoint: "{unat (u2x (ranges ! t)) ..< unat (u2y (ranges ! t))}
            \<inter> {unat (u2x (ranges ! t')) ..< unat (u2y (ranges ! t'))} = {}"
    if "t < T" "t' < T" "t \<noteq> t'" for t t'
  proof (rule ccontr)
    assume "{unat (u2x (ranges ! t)) ..< unat (u2y (ranges ! t))}
            \<inter> {unat (u2x (ranges ! t')) ..< unat (u2y (ranges ! t'))} \<noteq> {}"
    then obtain i where "i \<in> {unat (u2x (ranges ! t)) ..< unat (u2y (ranges ! t))}"
      "i \<in> {unat (u2x (ranges ! t')) ..< unat (u2y (ranges ! t'))}"
      by blast
    then have "tile_of (keys ! i) = t" "tile_of (keys ! i) = t'"
      using inside [OF that(1)] inside [OF that(2)] by blast+
    with that(3) show False
      by simp
  qed
  have cover: "(\<Union>t \<in> {0 ..< T}. {unat (u2x (ranges ! t)) ..< unat (u2y (ranges ! t))}) = {0 ..< R}"
  proof (intro set_eqI iffI)
    fix i
    assume "i \<in> (\<Union>t \<in> {0 ..< T}. {unat (u2x (ranges ! t)) ..< unat (u2y (ranges ! t))})"
    then obtain t where "t < T" "i \<in> {unat (u2x (ranges ! t)) ..< unat (u2y (ranges ! t))}"
      by auto
    then have "i < length keys"
      using inside by blast
    then show "i \<in> {0 ..< R}"
      by (simp add: assms(2))
  next
    fix i
    assume "i \<in> {0 ..< R}"
    then have i: "i < length keys"
      by (simp add: assms(2))
    then have t: "tile_of (keys ! i) < T"
      using assms(4) by simp
    then have "i \<in> {unat (u2x (ranges ! tile_of (keys ! i))) ..< unat (u2y (ranges ! tile_of (keys ! i)))}"
      using inside [OF t] i by blast
    with t show "i \<in> (\<Union>t \<in> {0 ..< T}. {unat (u2x (ranges ! t)) ..< unat (u2y (ranges ! t))})"
      by (intro UN_I [of "tile_of (keys ! i)"]) simp_all
  qed
  have untouched: "u2x (ranges ! t) = u2y (ranges ! t)" if "t < T" "t \<notin> tile_of ` set keys" for t
    using empty [OF that] by simp
  show ?thesis
    using run size order disjoint cover untouched
    by (intro exI [of _ ranges]) (simp add: assms(2))
qed

theorem identifyTileRanges_partition_witness:
  "sorted (map tile_of [0x40000000, 0x13F800000, 0x140000000])
   \<and> identifyTileRanges 3 [0x40000000, 0x13F800000, 0x140000000] (replicate 3 \<lparr>u2x = 0, u2y = 0\<rparr>)
       = Some [\<lparr>u2x = 0, u2y = 1\<rparr>, \<lparr>u2x = 1, u2y = 3\<rparr>, \<lparr>u2x = 0, u2y = 0\<rparr>]
   \<and> {unat (0 :: uint32_t) ..< unat (1 :: uint32_t)} \<union> {unat (1 :: uint32_t) ..< unat (3 :: uint32_t)}
       \<union> {unat (0 :: uint32_t) ..< unat (0 :: uint32_t)} = {0 ..< 3}"
proof -
  have tiles: "map tile_of [0x40000000, 0x13F800000, 0x140000000] = [0, 1, 1]"
    by code_simp
  have srt: "sorted (map tile_of [0x40000000, 0x13F800000, 0x140000000])"
    unfolding tiles by simp
  have bound: "\<forall>key \<in> set [0x40000000, 0x13F800000, 0x140000000]. tile_of key < 3"
    using tiles by simp
  have run: "identifyTileRanges 3 [0x40000000, 0x13F800000, 0x140000000]
      (replicate 3 \<lparr>u2x = 0, u2y = 0\<rparr>)
       = Some [\<lparr>u2x = 0, u2y = 1\<rparr>, \<lparr>u2x = 1, u2y = 3\<rparr>, \<lparr>u2x = 0, u2y = 0\<rparr>]"
    by code_simp
  from identifyTileRanges_partition [OF srt _ _ bound, of 3]
  show ?thesis
    using srt by (auto simp: run)
qed

section \<open>The radix sort\<close>

lemma set_radix_pass [simp]: "set (radix_pass b ps) = set ps"
  by (auto simp: radix_pass_def)

lemma length_radix_pass [simp]: "length (radix_pass b ps) = length ps"
  by (simp add: radix_pass_def sum_length_filter_compl add.commute)

lemma SortPairs_Suc: "SortPairs ps 0 (Suc e) = radix_pass e (SortPairs ps 0 e)"
  by (simp add: SortPairs_def)

lemma set_SortPairs [simp]: "set (SortPairs ps 0 e) = set ps"
  by (induction e) (simp_all add: SortPairs_Suc, simp add: SortPairs_def)

lemma length_SortPairs [simp]: "length (SortPairs ps 0 e) = length ps"
  by (induction e) (simp_all add: SortPairs_Suc, simp add: SortPairs_def)

text \<open>The low \<open>b\<close> bits of a key, as a number.\<close>

lemma low_bits_Suc:
  fixes k :: uint64_t
  shows "take_bit (Suc b) (unat k) = take_bit b (unat k) + (if bit k b then 2 ^ b else 0)"
  by (simp add: take_bit_Suc_from_most bit_unsigned_iff)

lemma radix_pass_sorted:
  assumes "sorted (map (\<lambda>p. take_bit b (unat (fst p))) ps)"
  shows "sorted (map (\<lambda>p. take_bit (Suc b) (unat (fst p))) (radix_pass b ps))"
proof -
  let ?f = "\<lambda>p :: key_value. take_bit b (unat (fst p))"
  let ?g = "\<lambda>p :: key_value. take_bit (Suc b) (unat (fst p))"
  from assms have srt: "sorted_wrt (\<lambda>p q. ?f p \<le> ?f q) ps"
    by (simp add: sorted_map)
  have zeros: "sorted_wrt (\<lambda>p q. ?g p \<le> ?g q) (filter (\<lambda>p. \<not> bit (fst p) b) ps)"
  proof (rule sorted_wrt_mono_rel [OF _ sorted_wrt_filter [OF srt]])
    fix p q
    assume "p \<in> set (filter (\<lambda>p. \<not> bit (fst p) b) ps)" "q \<in> set (filter (\<lambda>p. \<not> bit (fst p) b) ps)"
      "?f p \<le> ?f q"
    then show "?g p \<le> ?g q"
      by (simp add: low_bits_Suc)
  qed
  have ones: "sorted_wrt (\<lambda>p q. ?g p \<le> ?g q) (filter (\<lambda>p. bit (fst p) b) ps)"
  proof (rule sorted_wrt_mono_rel [OF _ sorted_wrt_filter [OF srt]])
    fix p q
    assume "p \<in> set (filter (\<lambda>p. bit (fst p) b) ps)" "q \<in> set (filter (\<lambda>p. bit (fst p) b) ps)"
      "?f p \<le> ?f q"
    then show "?g p \<le> ?g q"
      by (simp add: low_bits_Suc)
  qed
  have cross: "?g p \<le> ?g q" if "\<not> bit (fst p) b" "bit (fst q) b" for p q :: key_value
  proof -
    have "?g p = ?f p"
      using that by (simp add: low_bits_Suc)
    also have "\<dots> < 2 ^ b"
      by (rule take_bit_nat_less_exp)
    also have "\<dots> \<le> ?g q"
      using that by (simp add: low_bits_Suc)
    finally show ?thesis
      by simp
  qed
  show ?thesis
    unfolding sorted_map radix_pass_def sorted_wrt_append
    using zeros ones cross by auto
qed

lemma SortPairs_sorted_low_bits:
  "sorted (map (\<lambda>p. take_bit e (unat (fst p))) (SortPairs ps 0 e))"
proof (induction e)
  case 0
  show ?case
    by (simp add: map_replicate_const)
next
  case (Suc e)
  then show ?case
    unfolding SortPairs_Suc by (rule radix_pass_sorted)
qed

lemma SortPairs_sorted:
  assumes "\<forall>p \<in> set ps. unat (fst p) < 2 ^ e"
  shows "sorted (map (\<lambda>p. unat (fst p)) (SortPairs ps 0 e))"
proof -
  have "map (\<lambda>p. take_bit e (unat (fst p))) (SortPairs ps 0 e)
      = map (\<lambda>p. unat (fst p)) (SortPairs ps 0 e)"
    using assms by (intro map_cong refl) (simp add: take_bit_nat_eq_self)
  with SortPairs_sorted_low_bits [of e ps] show ?thesis
    by (simp only:)
qed

section \<open>The fields of a key\<close>

lemma tile_of_div: "tile_of key = unat key div 2 ^ 32"
proof -
  have "unat key < 2 ^ 64"
    using unsigned_less [of key, where 'a = nat] by simp
  then have "unat key div 2 ^ 32 < 2 ^ 32"
    by (simp add: less_mult_imp_div_less)
  moreover have shift: "unat (drop_bit 32 key) = unat key div 2 ^ 32"
    by (simp add: drop_bit_eq_div unat_div)
  ultimately show ?thesis
    unfolding tile_of_def unsigned_ucast_eq shift by (simp add: take_bit_eq_mod)
qed

lemma depth_of_mod: "unat (depth_of key) = unat key mod 2 ^ 32"
  by (simp add: depth_of_def unsigned_ucast_eq take_bit_eq_mod)

lemma tile_of_make_key: "tile_of (make_key grid y x depth) = unat (y * d3x grid + x)"
proof -
  have "ucast (drop_bit 32 (push_bit 32 (ucast t) OR ucast d :: uint64_t)) = t"
    for t d :: uint32_t
    by (rule bit_word_eqI) (auto simp: bit_simps dest: bit_imp_le_length)
  then show ?thesis
    by (simp add: tile_of_def make_key_def)
qed

lemma depth_of_make_key: "depth_of (make_key grid y x depth) = depth"
proof -
  have "ucast (push_bit 32 (ucast t) OR ucast d :: uint64_t) = d"
    for t d :: uint32_t
    by (rule bit_word_eqI) (auto simp: bit_simps dest: bit_imp_le_length)
  then show ?thesis
    by (simp add: depth_of_def make_key_def)
qed

text \<open>Keys in ascending order have their tiles in ascending order and, on one tile, their depths.\<close>

lemma tile_of_mono: "unat k \<le> unat k' \<Longrightarrow> tile_of k \<le> tile_of k'"
  by (simp add: tile_of_div div_le_mono)

lemma depth_of_mono:
  assumes "unat k \<le> unat k'" and "tile_of k = tile_of k'"
  shows "depth_of k \<le> depth_of k'"
proof -
  have "unat k = tile_of k * 2 ^ 32 + unat (depth_of k)"
    "unat k' = tile_of k' * 2 ^ 32 + unat (depth_of k')"
    by (simp_all add: tile_of_div depth_of_mod)
  with assms have "unat (depth_of k) \<le> unat (depth_of k')"
    by simp
  then show ?thesis
    by (simp add: word_le_nat_alt)
qed

lemma key_below_end_bit:
  assumes "tile_of key < unat (d3x grid * d3y grid)"
  shows "unat key < 2 ^ nat (sort_end_bit grid)"
proof -
  define n where "n = unat (d3x grid * d3y grid)"
  have e: "nat (sort_end_bit grid) = 32 + max 1 (floorlog 2 n)"
    by (simp add: sort_end_bit_def sint_getHigherMsb n_def)
  from assms have "0 < n"
    by (simp add: n_def)
  then have "n < 2 ^ floorlog 2 n"
    by (simp add: floorlog_bounds)
  with assms have "tile_of key + 1 \<le> 2 ^ floorlog 2 n"
    by (simp add: n_def)
  also have "\<dots> \<le> 2 ^ max 1 (floorlog 2 n)"
    by (rule power_increasing) simp_all
  finally have le: "(tile_of key + 1) * 2 ^ 32 \<le> 2 ^ max 1 (floorlog 2 n) * 2 ^ 32"
    by (simp only: mult_le_mono1)
  have "unat key < (tile_of key + 1) * 2 ^ 32"
  proof -
    have "unat key = tile_of key * 2 ^ 32 + unat key mod 2 ^ 32"
      by (simp add: tile_of_div)
    also have "\<dots> < tile_of key * 2 ^ 32 + 2 ^ 32"
      by (intro add_strict_left_mono) simp
    finally show ?thesis
      by simp
  qed
  then have "unat key < 2 ^ max 1 (floorlog 2 n) * 2 ^ 32"
    using le by (rule less_le_trans)
  then show ?thesis
    by (simp add: e power_add mult.commute)
qed

section \<open>The tiles of the generated keys\<close>

lemma unat_tile_index:
  fixes x y gx gy :: uint32_t
  assumes "x < gx" and "y < gy" and "unat gx * unat gy < 2 ^ 32"
  shows "unat (y * gx + x) = unat y * unat gx + unat x"
    and "unat y * unat gx + unat x < unat gx * unat gy"
proof -
  from assms(1,2) have xy: "unat x < unat gx" "Suc (unat y) \<le> unat gy"
    by (simp_all add: word_less_nat_alt Suc_le_eq)
  have "unat y * unat gx + unat x < Suc (unat y) * unat gx"
    using xy(1) by simp
  also have "\<dots> \<le> unat gy * unat gx"
    using xy(2) by (rule mult_le_mono1)
  finally show less: "unat y * unat gx + unat x < unat gx * unat gy"
    by (simp add: mult.commute)
  with assms(3) have "unat y * unat gx + unat x < 2 ^ 32"
    by simp
  then show "unat (y * gx + x) = unat y * unat gx + unat x"
    by (simp add: unat_word_ariths mod_simps)
qed

lemma prim_keys_tile:
  assumes "key \<in> set (prim_keys grid radii points_xy depths i)"
    and "unat (d3x grid) * unat (d3y grid) < 2 ^ 32"
  shows "tile_of key < unat (d3x grid * d3y grid)"
proof -
  from assms(1) obtain y x where key: "key = make_key grid y x (depths ! i)"
    and yx: "(y, x) \<in> set (prim_tiles grid radii points_xy i)"
    by (auto simp: prim_keys_def)
  have "0 < radii ! i"
    using yx by (cases "0 < radii ! i") (simp_all add: prim_tiles_def)
  with yx have "(y, x) \<in> set (rect_tiles (fst (getRect (points_xy ! i) grid))
      (snd (getRect (points_xy ! i) grid)))"
    by (simp add: prim_tiles_def case_prod_beta)
  then have "x < clamp_to_grid (box_max_x (points_xy ! i)) (d3x grid)"
    "y < clamp_to_grid (box_max_y (points_xy ! i)) (d3y grid)"
    unfolding set_rect_tiles by (simp_all add: getRect_def)
  then have "x < d3x grid" "y < d3y grid"
    using clamp_to_grid_le [of "box_max_x (points_xy ! i)" "d3x grid"]
      clamp_to_grid_le [of "box_max_y (points_xy ! i)" "d3y grid"] by simp_all
  from unat_tile_index [OF this assms(2)]
  have "tile_of key < unat (d3x grid) * unat (d3y grid)"
    by (simp add: key tile_of_make_key)
  also have "\<dots> = unat (d3x grid * d3y grid)"
    using assms(2) by (simp add: unat_word_ariths)
  finally show ?thesis .
qed

section \<open>The ranges of a table that is not all zero\<close>

lemma identifyTileRanges_inside:
  assumes srt: "sorted (map tile_of keys)" and len: "length keys < 2 ^ 31"
    and bound: "\<forall>key \<in> set keys. tile_of key < length ranges0"
    and run: "identifyTileRanges (length keys) keys ranges0 = Some ranges"
    and t: "t < length ranges0"
    and zero: "t \<in> tile_of ` set keys \<or> ranges0 ! t = \<lparr>u2x = 0, u2y = 0\<rparr>"
  shows "i \<in> {unat (u2x (ranges ! t)) ..< unat (u2y (ranges ! t))}
      \<longleftrightarrow> i < length keys \<and> tile_of (keys ! i) = t"
proof -
  have cnt: "length (filter (\<lambda>key. tile_of key < t) keys) = length (filter (\<lambda>u. u < t) (map tile_of keys))"
    "length (filter (\<lambda>key. tile_of key \<le> t) keys) = length (filter (\<lambda>u. u \<le> t) (map tile_of keys))"
    by (simp_all add: filter_map comp_def)
  from run t have entry: "ranges ! t = (if t \<in> tile_of ` set keys
        then \<lparr>u2x = of_nat (length (filter (\<lambda>key. tile_of key < t) keys)),
              u2y = of_nat (length (filter (\<lambda>key. tile_of key \<le> t) keys))\<rparr>
        else ranges0 ! t)"
    unfolding identifyTileRanges_eq [OF srt bound] by auto
  show ?thesis
  proof (cases "t \<in> tile_of ` set keys")
    case False
    then have "tile_of (keys ! i) \<noteq> t" if "i < length keys"
      using that nth_mem by blast
    with False zero show ?thesis
      by (auto simp: entry)
  next
    case True
    then show ?thesis
      using sorted_count_less [OF srt, of i t] sorted_count_le [OF srt, of i t]
      by (auto simp: entry unat_of_nat_count [OF len] cnt)
  qed
qed

section \<open>The sorted key list of forward\<close>

lemma forward_keys:
  assumes ret: "forward cfg P width height colors_precomp background geom mem blend = (ev, Inr res)"
    and dev: "res_device res = Some dev"
    and sized: "geometry_sized geom P"
    and touched: "tiles_touched_ok (tile_grid_of cfg width height) geom P"
    and grid: "unat (d3x (tile_grid_of cfg width height)) * unat (d3y (tile_grid_of cfg width height))
        < 2 ^ 32"
  shows "length (res_point_list_keys dev) = nat (res_num_rendered res)"
    and "length (res_point_list_keys dev) < 2 ^ 31"
    and "\<forall>key \<in> set (res_point_list_keys dev).
          tile_of key < unat (d3x (tile_grid_of cfg width height) * d3y (tile_grid_of cfg width height))"
    and "sorted (map unat (res_point_list_keys dev))"
proof -
  define g where "g = tile_grid_of cfg width height"
  define K where "K = concat (map (prim_keys g (pre_radii geom) (pre_points_xy geom)
      (pre_depths geom)) [0 ..< P])"
  note facts = forward_instance_count [OF ret dev sized touched]
  from facts(6) obtain V where
    lenK: "length K = sum_list (map unat (pre_tiles_touched geom))"
    and lenV: "length V = sum_list (map unat (pre_tiles_touched geom))"
    and keys: "res_point_list_keys dev = map fst (SortPairs (zip K V) 0 (nat (sort_end_bit g)))"
    unfolding K_def g_def by blast
  have tileK: "tile_of key < unat (d3x g * d3y g)" if "key \<in> set K" for key
  proof -
    from that obtain i where "key \<in> set (prim_keys g (pre_radii geom) (pre_points_xy geom)
      (pre_depths geom) i)"
      by (auto simp: K_def)
    then show ?thesis
      using grid unfolding g_def by (rule prim_keys_tile)
  qed
  have inK: "fst p \<in> set K" if "p \<in> set (zip K V)" for p
    using set_zip_leftD [of "fst p" "snd p" K V] that by simp
  show "length (res_point_list_keys dev) = nat (res_num_rendered res)"
    by (simp add: keys lenK lenV facts(3))
  show "length (res_point_list_keys dev) < 2 ^ 31"
    using facts(2) by (simp add: keys lenK lenV)
  show "\<forall>key \<in> set (res_point_list_keys dev).
          tile_of key < unat (d3x (tile_grid_of cfg width height) * d3y (tile_grid_of cfg width height))"
    using tileK inK by (auto simp: keys simp flip: g_def)
  have "\<forall>p \<in> set (zip K V). unat (fst p) < 2 ^ nat (sort_end_bit g)"
    using tileK inK key_below_end_bit by blast
  then have "sorted (map (\<lambda>p. unat (fst p)) (SortPairs (zip K V) 0 (nat (sort_end_bit g))))"
    by (rule SortPairs_sorted)
  then show "sorted (map unat (res_point_list_keys dev))"
    by (simp add: keys comp_def)
qed

lemma sorted_keys_tiles:
  assumes "sorted (map unat keys)"
  shows "sorted (map tile_of keys)"
  using assms by (auto simp: sorted_iff_nth_mono intro: tile_of_mono)

lemma sorted_keys_depths:
  assumes "sorted (map unat keys)" and "i \<le> j" and "j < length keys"
    and "tile_of (keys ! i) = tile_of (keys ! j)"
  shows "depth_of (keys ! i) \<le> depth_of (keys ! j)"
proof -
  from assms(1-3) have "unat (keys ! i) \<le> unat (keys ! j)"
    by (auto simp: sorted_iff_nth_mono)
  then show ?thesis
    using assms(4) by (rule depth_of_mono)
qed

text \<open>
  C1: for a call of \<open>forward\<close> that returns with its kernels inside their arrays, on geometry
  that keeps the contract of the projection stage and a tile grid whose size fits 32 bits: the
  instance key list has one key per instance, the tiles of its keys never decrease along the
  list, two instances of one tile have their depth fields in the order of the list, and so have
  any two instances inside the range that the range table gives for a tile of the grid.
\<close>

theorem forward_keys_sorted:
  assumes "forward cfg P width height colors_precomp background geom mem blend = (ev, Inr res)"
    and "res_device res = Some dev"
    and "geometry_sized geom P"
    and "tiles_touched_ok (tile_grid_of cfg width height) geom P"
    and "unat (d3x (tile_grid_of cfg width height)) * unat (d3y (tile_grid_of cfg width height))
        < 2 ^ 32"
  shows "length (res_point_list_keys dev) = nat (res_num_rendered res)
    \<and> sorted (map tile_of (res_point_list_keys dev))
    \<and> (\<forall>i j. i \<le> j \<and> j < length (res_point_list_keys dev)
          \<and> tile_of (res_point_list_keys dev ! i) = tile_of (res_point_list_keys dev ! j)
        \<longrightarrow> depth_of (res_point_list_keys dev ! i) \<le> depth_of (res_point_list_keys dev ! j))
    \<and> (\<forall>t < unat (d3x (tile_grid_of cfg width height) * d3y (tile_grid_of cfg width height)).
        \<forall>i j. unat (u2x (res_ranges dev ! t)) \<le> i \<and> i \<le> j \<and> j < unat (u2y (res_ranges dev ! t))
        \<longrightarrow> depth_of (res_point_list_keys dev ! i) \<le> depth_of (res_point_list_keys dev ! j))"
proof -
  define g where "g = tile_grid_of cfg width height"
  define keys where "keys = res_point_list_keys dev"
  define N where "N = nat (int32 (width * height))"
  note k = forward_keys [OF assms, folded g_def keys_def]
  have tiles: "sorted (map tile_of keys)"
    using k(4) by (rule sorted_keys_tiles)
  have depths: "depth_of (keys ! i) \<le> depth_of (keys ! j)"
    if "i \<le> j" "j < length keys" "tile_of (keys ! i) = tile_of (keys ! j)" for i j
    using k(4) that by (rule sorted_keys_depths)
  have in_range: "depth_of (keys ! i) \<le> depth_of (keys ! j)"
    if t: "t < unat (d3x g * d3y g)"
      and ij: "unat (u2x (res_ranges dev ! t)) \<le> i" "i \<le> j" "j < unat (u2y (res_ranges dev ! t))"
    for t i j
    using assms(1,2)
  proof (rule forward_returns)
    fix point_offsets last_offset keys_unsorted values_unsorted ranges0
    assume memset: "memset_ranges (junk_ranges mem) (nat (int32 (width * height)))
          (tile_grid_of cfg width height) = Some ranges0"
      and run0: "(if 0 < sint last_offset
          then identifyTileRanges (nat (sint last_offset))
                 (map fst (SortPairs (zip keys_unsorted values_unsorted) 0
                    (nat (sort_end_bit (tile_grid_of cfg width height))))) ranges0
          else Some ranges0) = Some (res_ranges dev)"
      and num: "res_num_rendered res = sint last_offset"
      and res: "res_point_list_keys dev = map fst (SortPairs (zip keys_unsorted values_unsorted) 0
              (nat (sort_end_bit (tile_grid_of cfg width height))))"
    from run0 have run: "(if 0 < sint last_offset
          then identifyTileRanges (nat (sint last_offset)) keys ranges0
          else Some ranges0) = Some (res_ranges dev)"
      unfolding keys_def res .
    note memset = memset [folded g_def N_def]
    from memset have le: "unat (d3x g * d3y g) \<le> N"
      and ranges0: "ranges0 = replicate (unat (d3x g * d3y g)) \<lparr>u2x = 0, u2y = 0\<rparr>
          @ map (junk_ranges mem) [unat (d3x g * d3y g) ..< N]"
      by (simp_all add: memset_ranges_def Let_def split: if_splits)
    from t have zero: "ranges0 ! t = \<lparr>u2x = 0, u2y = 0\<rparr>"
      by (simp add: ranges0 nth_append)
    from le have size: "length ranges0 = N"
      by (simp add: ranges0)
    show "depth_of (keys ! i) \<le> depth_of (keys ! j)"
    proof (cases "0 < sint last_offset")
      case False
      with run zero ij show ?thesis
        by simp
    next
      case True
      with run k(1) num have run': "identifyTileRanges (length keys) keys ranges0 = Some (res_ranges dev)"
        by simp
      have bound: "\<forall>key \<in> set keys. tile_of key < length ranges0"
        using k(3) le size by fastforce
      have tl: "t < length ranges0"
        using t le size by simp
      note inside = identifyTileRanges_inside [OF tiles k(2) bound run' tl disjI2 [OF zero]]
      from ij have "i \<in> {unat (u2x (res_ranges dev ! t)) ..< unat (u2y (res_ranges dev ! t))}"
        "j \<in> {unat (u2x (res_ranges dev ! t)) ..< unat (u2y (res_ranges dev ! t))}"
        by simp_all
      then have "j < length keys" "tile_of (keys ! i) = tile_of (keys ! j)"
        unfolding inside by simp_all
      with ij(2) show ?thesis
        by (intro depths)
    qed
  qed
  show ?thesis
    using k(1) tiles depths in_range unfolding g_def keys_def by blast
qed

theorem forward_keys_sorted_witness:
  "\<exists>ev res dev. forward example_cfg 3 17 1 (None :: unit option) [1, 1, 1] example_geom example_mem
       example_blend = (ev, Inr res)
     \<and> res_device res = Some dev
     \<and> geometry_sized example_geom 3
     \<and> tiles_touched_ok (tile_grid_of example_cfg 17 1) example_geom 3
     \<and> unat (d3x (tile_grid_of example_cfg 17 1)) * unat (d3y (tile_grid_of example_cfg 17 1)) < 2 ^ 32
     \<and> res_point_list_keys dev = [0x40000000, 0x13F800000, 0x140000000]
     \<and> length (res_point_list_keys dev) = nat (res_num_rendered res)
     \<and> sorted (map tile_of (res_point_list_keys dev))
     \<and> tile_of (res_point_list_keys dev ! 1) = tile_of (res_point_list_keys dev ! 2)
     \<and> depth_of (res_point_list_keys dev ! 1) \<le> depth_of (res_point_list_keys dev ! 2)"
proof -
  from example_forward obtain ev res dev where
    ret: "forward example_cfg 3 17 1 (None :: unit option) [1, 1, 1] example_geom example_mem
       example_blend = (ev, Inr res)"
    and dev: "res_device res = Some dev"
    and keys: "res_point_list_keys dev = [0x40000000, 0x13F800000, 0x140000000]"
    by force
  have grid: "unat (d3x (tile_grid_of example_cfg 17 1)) * unat (d3y (tile_grid_of example_cfg 17 1))
      < 2 ^ 32"
    by (simp add: example_grid)
  have tiles: "tile_of 0x13F800000 = tile_of 0x140000000"
    by code_simp
  note sorted_keys = forward_keys_sorted [OF ret dev example_sized example_touched grid]
  from sorted_keys have len: "length (res_point_list_keys dev) = nat (res_num_rendered res)"
    and srt: "sorted (map tile_of (res_point_list_keys dev))"
    by blast+
  from sorted_keys have depths: "depth_of (res_point_list_keys dev ! i) \<le> depth_of (res_point_list_keys dev ! j)"
    if "i \<le> j" "j < length (res_point_list_keys dev)"
      "tile_of (res_point_list_keys dev ! i) = tile_of (res_point_list_keys dev ! j)" for i j
    using that by blast
  have "depth_of (res_point_list_keys dev ! 1) \<le> depth_of (res_point_list_keys dev ! 2)"
    by (rule depths) (simp_all add: keys tiles)
  then show ?thesis
    using ret dev example_sized example_touched grid keys tiles len srt
    by (intro exI [of _ ev] exI [of _ res] exI [of _ dev]) simp
qed

section \<open>The tile grid of an image\<close>

lemma c_div_nonneg: "0 \<le> a \<Longrightarrow> 0 < b \<Longrightarrow> c_div a b = a div b"
  by (cases "a = 0") (simp_all add: c_div_def)

lemma ceil_div_le:
  fixes B w :: nat
  assumes "1 \<le> B"
  shows "(w + B - 1) div B \<le> w"
proof -
  have "w \<le> w * B"
    using assms by simp
  moreover have "Suc w * B = w * B + B"
    by simp
  ultimately have "w + B - 1 < Suc w * B"
    using assms by linarith
  then have "(w + B - 1) div B < Suc w"
    by (rule less_mult_imp_div_less)
  then show ?thesis
    by simp
qed

lemma div_less_ceil_div:
  fixes B w x :: nat
  assumes "x < w" and "1 \<le> B"
  shows "x div B < (w + B - 1) div B"
proof -
  from assms have "x + B \<le> w + B - 1"
    by simp
  then have "(x + B) div B \<le> (w + B - 1) div B"
    by (rule div_le_mono)
  with assms(2) show ?thesis
    by simp
qed

text \<open>Where \<open>width + BLOCK_X - 1\<close> does not overflow, the grid has the tiles that cover the image.\<close>

lemma unat_ceil_div:
  assumes "1 \<le> B" and "1 \<le> w" and "w + B - 1 < 2 ^ 31"
  shows "unat (word_of_int (c_div (int32 (w + B - 1)) B) :: uint32_t) = (nat w + nat B - 1) div nat B"
proof -
  define k where "k = (w + B - 1) div B"
  have fits: "int32 (w + B - 1) = w + B - 1"
    using assms by (intro int32_eq) simp_all
  have k: "c_div (int32 (w + B - 1)) B = k"
    unfolding fits using assms by (simp add: c_div_nonneg k_def)
  have nat_k: "nat k = (nat w + nat B - 1) div nat B"
    using assms by (simp add: k_def nat_div_distrib nat_add_distrib nat_diff_distrib)
  have "nat k \<le> nat w"
    unfolding nat_k using assms by (intro ceil_div_le) simp
  moreover have "0 \<le> k"
    using assms by (simp add: k_def pos_imp_zdiv_nonneg_iff)
  ultimately have "0 \<le> k" "k < 2 ^ 32"
    using assms by simp_all
  then have "unat (word_of_int k :: uint32_t) = nat k"
    by (simp add: unat_eq_nat_uint uint_word_of_int_eq take_bit_int_eq_self)
  then show ?thesis
    by (simp add: k nat_k)
qed

lemma tile_grid_unat:
  assumes "1 \<le> BLOCK_X cfg" "1 \<le> BLOCK_Y cfg" "1 \<le> width" "1 \<le> height"
    and "width + BLOCK_X cfg - 1 < 2 ^ 31" "height + BLOCK_Y cfg - 1 < 2 ^ 31"
  shows "unat (d3x (tile_grid_of cfg width height))
      = (nat width + nat (BLOCK_X cfg) - 1) div nat (BLOCK_X cfg)"
    and "unat (d3y (tile_grid_of cfg width height))
      = (nat height + nat (BLOCK_Y cfg) - 1) div nat (BLOCK_Y cfg)"
  using assms by (simp_all add: tile_grid_of_def unat_ceil_div)

lemma tile_grid_size:
  assumes "1 \<le> BLOCK_X cfg" "1 \<le> BLOCK_Y cfg" "1 \<le> width" "1 \<le> height"
    and "width + BLOCK_X cfg - 1 < 2 ^ 31" "height + BLOCK_Y cfg - 1 < 2 ^ 31"
    and "width * height < 2 ^ 31"
  defines "g \<equiv> tile_grid_of cfg width height"
  shows "unat (d3x g) * unat (d3y g) \<le> nat (width * height)"
    and "unat (d3x g) * unat (d3y g) < 2 ^ 32"
    and "unat (d3x g * d3y g) = unat (d3x g) * unat (d3y g)"
proof -
  note gx = tile_grid_unat [OF assms(1-6), folded g_def]
  have "unat (d3x g) \<le> nat width"
    unfolding gx(1) by (rule ceil_div_le) (use assms(1) in simp)
  moreover have "unat (d3y g) \<le> nat height"
    unfolding gx(2) by (rule ceil_div_le) (use assms(2) in simp)
  ultimately have "unat (d3x g) * unat (d3y g) \<le> nat width * nat height"
    by (rule mult_le_mono)
  then show le: "unat (d3x g) * unat (d3y g) \<le> nat (width * height)"
    using assms(3) by (simp add: nat_mult_distrib)
  have "nat (width * height) < 2 ^ 31"
    using assms(7) by simp
  with le show less: "unat (d3x g) * unat (d3y g) < 2 ^ 32"
    by simp
  then show "unat (d3x g * d3y g) = unat (d3x g) * unat (d3y g)"
    by (simp add: unat_word_ariths)
qed

lemma tile_of_pixel_less:
  assumes "1 \<le> BLOCK_X cfg" "1 \<le> BLOCK_Y cfg" "1 \<le> width" "1 \<le> height"
    and "width + BLOCK_X cfg - 1 < 2 ^ 31" "height + BLOCK_Y cfg - 1 < 2 ^ 31"
    and "width * height < 2 ^ 31"
    and "pix < nat width * nat height"
  defines "g \<equiv> tile_grid_of cfg width height"
  shows "tile_of_pixel (nat (BLOCK_X cfg)) (nat (BLOCK_Y cfg)) g (nat width) pix < unat (d3x g * d3y g)"
proof -
  note gx = tile_grid_unat [OF assms(1-6), folded g_def]
  have "pix mod nat width < nat width"
    using assms(3) by simp
  then have col: "pix mod nat width div nat (BLOCK_X cfg) < unat (d3x g)"
    unfolding gx using assms(1) by (intro div_less_ceil_div) simp_all
  have "pix div nat width < nat height"
    using assms(8) by (simp add: less_mult_imp_div_less mult.commute)
  then have "pix div nat width div nat (BLOCK_Y cfg) < unat (d3y g)"
    unfolding gx using assms(2) by (intro div_less_ceil_div) simp_all
  then have row: "Suc (pix div nat width div nat (BLOCK_Y cfg)) \<le> unat (d3y g)"
    by simp
  have "tile_of_pixel (nat (BLOCK_X cfg)) (nat (BLOCK_Y cfg)) g (nat width) pix
      < Suc (pix div nat width div nat (BLOCK_Y cfg)) * unat (d3x g)"
    using col by (simp add: tile_of_pixel_def)
  also have "\<dots> \<le> unat (d3y g) * unat (d3x g)"
    using row by (rule mult_le_mono1)
  also have "\<dots> = unat (d3x g * d3y g)"
    unfolding g_def tile_grid_size(3) [OF assms(1-7)] by (rule mult.commute)
  finally show ?thesis .
qed

section \<open>Rendering with no instance\<close>

lemma render_pixels_empty_ranges:
  assumes "\<And>pix. pix \<in> set pixs \<Longrightarrow>
      tile pix < length ranges \<and> ranges ! tile pix = \<lparr>u2x = 0, u2y = 0\<rparr>"
  shows "render_pixels tile blend ranges point_list background pixs
      = Some (map (\<lambda>pix. background) pixs)"
  using assms
proof (induction pixs)
  case Nil
  show ?case
    by simp
next
  case (Cons pix rest)
  from Cons.prems [of pix] have "nth_opt ranges (tile pix) = Some \<lparr>u2x = 0, u2y = 0\<rparr>"
    by (simp add: nth_opt_def)
  moreover have "render_pixel blend \<lparr>u2x = 0, u2y = 0\<rparr> point_list background pix = Some background"
    by (simp add: render_pixel_def)
  moreover have "render_pixels tile blend ranges point_list background rest
      = Some (map (\<lambda>pix. background) rest)"
    using Cons.prems by (intro Cons.IH) simp
  ultimately show ?case
    by simp
qed

lemma SortPairs_Nil: "SortPairs [] begin_bit end_bit = []"
proof -
  have "fold radix_pass bs [] = []" for bs
    by (induction bs) (simp_all add: radix_pass_def)
  then show ?thesis
    by (simp add: SortPairs_def)
qed

lemma inclusive_scan_zero:
  assumes "\<forall>c \<in> set cs. c = 0"
  shows "inclusive_scan 0 cs = replicate (length cs) 0"
  using assms by (induction cs) simp_all

section \<open>A call that produces no instance\<close>

text \<open>
  C7, as stated: a call that produces no instance completes. A call with no primitive at all
  produces no instance, yet it reads the count from \<open>point_offsets[-1]\<close>, outside the array.
\<close>

theorem forward_no_primitives:
  "geometry_sized \<lparr>pre_radii = [], pre_points_xy = [], pre_depths = [], pre_tiles_touched = []\<rparr> 0
   \<and> sum_list (map unat (pre_tiles_touched
         \<lparr>pre_radii = [], pre_points_xy = [], pre_depths = [], pre_tiles_touched = []\<rparr>)) = 0
   \<and> forward example_cfg 0 17 1 (None :: unit option) [1, 1, 1]
        \<lparr>pre_radii = [], pre_points_xy = [], pre_depths = [], pre_tiles_touched = []\<rparr>
        example_mem example_blend
      = ([GeometryBuffer (required (GeometryState_fromChunk (scan_temp_bytes example_cfg)) 0),
          ImageBuffer (required ImageState_fromChunk 17),
          Preprocess, ScanOffsets, ReadNumRendered], Inl OutOfBounds)"
  by (simp add: forward_def Let_def example_cfg_simps InclusiveSum_def read_at_def
      geometry_sized_def int32_def)

text \<open>
  C7, amended: a call of \<open>forward\<close> with an accepted configuration, at least one primitive, an
  image of at least one pixel for which neither \<open>width + BLOCK_X - 1\<close>, \<open>height + BLOCK_Y - 1\<close>
  nor \<open>width * height\<close> overflows \<open>int\<close>, and geometry that keeps the contract of the
  projection stage with all touch counts 0 returns, no kernel leaves its arrays, and it
  returns the count 0, empty instance lists, the range \<open>(0, 0)\<close> for every tile of the grid
  and an image in which every pixel is the background colour; \<open>identifyTileRanges\<close> is not
  launched.
\<close>

theorem forward_no_instances:
  assumes "NUM_CHANNELS cfg = 3 \<or> colors_precomp \<noteq> None"
    and "1 \<le> BLOCK_X cfg" and "1 \<le> BLOCK_Y cfg"
    and "1 \<le> width" and "1 \<le> height"
    and "width + BLOCK_X cfg - 1 < 2 ^ 31" and "height + BLOCK_Y cfg - 1 < 2 ^ 31"
    and "width * height < 2 ^ 31"
    and "1 \<le> P"
    and "geometry_sized geom P"
    and "tiles_touched_ok (tile_grid_of cfg width height) geom P"
    and "sum_list (map unat (pre_tiles_touched geom)) = 0"
  shows "\<exists>ev res dev. forward cfg P width height colors_precomp background geom mem blend = (ev, Inr res)
      \<and> res_num_rendered res = 0
      \<and> res_device res = Some dev
      \<and> res_point_list_keys dev = [] \<and> res_point_list dev = []
      \<and> (\<forall>t < unat (d3x (tile_grid_of cfg width height) * d3y (tile_grid_of cfg width height)).
            res_ranges dev ! t = \<lparr>u2x = 0, u2y = 0\<rparr>)
      \<and> res_out_color dev = replicate (nat (width * height)) background
      \<and> IdentifyTileRanges \<notin> set ev"
proof -
  define g where "g = tile_grid_of cfg width height"
  define n where "n = unat (d3x g * d3y g)"
  define ranges0 where "ranges0 = replicate n \<lparr>u2x = 0, u2y = 0\<rparr>
      @ map (junk_ranges mem) [n ..< nat (width * height)]"
  note image = assms(2-8)
  from assms(10) have sz: "length (pre_radii geom) = P" "length (pre_points_xy geom) = P"
    "length (pre_depths geom) = P" "length (pre_tiles_touched geom) = P"
    by (simp_all add: geometry_sized_def)
  have ok: "(NUM_CHANNELS cfg \<noteq> 3 \<and> colors_precomp = None) = False"
    using assms(1) by auto
  have "0 \<le> width * height"
    using assms(4,5) by simp
  then have pixels32: "int32 (width * height) = width * height"
    using assms(8) by (intro int32_eq) simp_all
  from assms(12) have zero: "\<forall>c \<in> set (pre_tiles_touched geom). c = 0"
    by (simp add: unat_eq_0)
  have scan: "InclusiveSum (pre_tiles_touched geom) P = Some (replicate P 0)"
    using inclusive_scan_zero [OF zero] by (simp add: InclusiveSum_def sz)
  have rd: "read_at (replicate P (0 :: uint32_t)) (int P - 1) = Some 0"
    using assms(9) by (simp add: read_at_def)
  have untouched: "pre_tiles_touched geom ! i = 0" if "i < P" for i
  proof -
    from that have "pre_tiles_touched geom ! i \<in> set (pre_tiles_touched geom)"
      by (simp add: sz)
    with zero show ?thesis
      by blast
  qed
  have empty: "prim_tiles g (pre_radii geom) (pre_points_xy geom) i = []" if "i < P" for i
  proof -
    have "pre_tiles_touched geom ! i = 0"
      using that by (rule untouched)
    moreover from assms(11) that have "unat (pre_tiles_touched geom ! i)
        = length (prim_tiles g (pre_radii geom) (pre_points_xy geom) i)"
      by (simp add: tiles_touched_ok_def g_def)
    ultimately show ?thesis
      by simp
  qed
  have K: "concat (map (prim_keys g (pre_radii geom) (pre_points_xy geom) (pre_depths geom)) [0 ..< P]) = []"
    using empty by (simp add: prim_keys_def)
  have V: "concat (map (prim_values g (pre_radii geom) (pre_points_xy geom)) [0 ..< P]) = []"
    using empty by (simp add: prim_values_def)
  have total: "sum_list (map (\<lambda>i. length (prim_tiles g (pre_radii geom) (pre_points_xy geom) i)) [0 ..< P]) = 0"
    using empty by simp
  have "duplicateWithKeys P (pre_points_xy geom) (pre_depths geom) (replicate P 0) (pre_radii geom) g
      ([], []) =
     (if sum_list (map (\<lambda>i. length (prim_tiles g (pre_radii geom) (pre_points_xy geom) i)) [0 ..< P])
         \<le> length ([] :: uint64_t list)
      then Some (write_run [] 0 (concat (map (prim_keys g (pre_radii geom) (pre_points_xy geom)
                   (pre_depths geom)) [0 ..< P])),
                 write_run [] 0 (concat (map (prim_values g (pre_radii geom) (pre_points_xy geom))
                   [0 ..< P])))
      else None)"
  proof (rule duplicateWithKeys_eq)
    show "P \<le> length (pre_radii geom)" "P \<le> length (pre_points_xy geom)"
      "P \<le> length (pre_depths geom)" "P \<le> length (pre_tiles_touched geom)"
      by (simp_all add: sz)
    show "replicate P 0 = inclusive_scan 0 (take P (pre_tiles_touched geom))"
      using inclusive_scan_zero [OF zero] by (simp add: sz)
    show "unat (pre_tiles_touched geom ! i)
        = length (prim_tiles g (pre_radii geom) (pre_points_xy geom) i)" if "i < P" for i
      using that by (simp add: empty untouched)
    show "length ([] :: uint64_t list) = length ([] :: uint32_t list)"
      "length ([] :: uint64_t list) < 2 ^ 32"
      by simp_all
  qed
  then have dup: "duplicateWithKeys P (pre_points_xy geom) (pre_depths geom) (replicate P 0)
      (pre_radii geom) g ([], []) = Some ([], [])"
    unfolding K V total by (simp add: write_run_def)
  have n_le: "n \<le> nat (width * height)"
    using tile_grid_size(1,3) [OF image] by (simp add: n_def g_def)
  then have memset: "memset_ranges (junk_ranges mem) (nat (width * height)) g = Some ranges0"
    by (simp add: memset_ranges_def Let_def ranges0_def n_def)
  have size: "length ranges0 = nat (width * height)"
    using n_le by (simp add: ranges0_def)
  have zeroed: "ranges0 ! t = \<lparr>u2x = 0, u2y = 0\<rparr>" if "t < n" for t
    using that by (simp add: ranges0_def nth_append)
  have pixels: "nat width * nat height = nat (width * height)"
    using assms(4) by (simp add: nat_mult_distrib)
  have "render_pixels (tile_of_pixel (nat (BLOCK_X cfg)) (nat (BLOCK_Y cfg)) g (nat width)) blend
      ranges0 [] background [0 ..< nat width * nat height]
    = Some (map (\<lambda>pix. background) [0 ..< nat width * nat height])"
  proof (rule render_pixels_empty_ranges)
    fix pix
    assume "pix \<in> set [0 ..< nat width * nat height]"
    then have "pix < nat width * nat height"
      by simp
    from tile_of_pixel_less [OF image this]
    have "tile_of_pixel (nat (BLOCK_X cfg)) (nat (BLOCK_Y cfg)) g (nat width) pix < n"
      by (simp add: n_def g_def)
    then show "tile_of_pixel (nat (BLOCK_X cfg)) (nat (BLOCK_Y cfg)) g (nat width) pix < length ranges0
      \<and> ranges0 ! tile_of_pixel (nat (BLOCK_X cfg)) (nat (BLOCK_Y cfg)) g (nat width) pix
          = \<lparr>u2x = 0, u2y = 0\<rparr>"
      using n_le size zeroed by simp
  qed
  then have render: "render (nat (BLOCK_X cfg)) (nat (BLOCK_Y cfg)) g (nat width) (nat height) blend
      ranges0 [] background = Some (replicate (nat (width * height)) background)"
    by (simp add: render_def map_replicate_const pixels)
  have "forward cfg P width height colors_precomp background geom mem blend =
     ([GeometryBuffer (required (GeometryState_fromChunk (scan_temp_bytes cfg)) (of_nat P)),
       ImageBuffer (required ImageState_fromChunk (of_int (width * height))),
       Preprocess, ScanOffsets, ReadNumRendered,
       BinningBuffer (required (BinningState_fromChunk (sort_temp_bytes cfg)) 0),
       DuplicateWithKeys, SortInstances, MemsetRanges, Render],
      Inr \<lparr>res_num_rendered = 0, res_point_offsets = replicate P 0,
           res_device = Some \<lparr>res_point_list_keys = [], res_point_list = [],
             res_ranges = ranges0,
             res_out_color = replicate (nat (width * height)) background\<rparr>\<rparr>)"
    unfolding forward_def Let_def ok g_def [symmetric] pixels32 scan option.case rd
    by (simp add: dup SortPairs_Nil memset render)
  then show ?thesis
    using zeroed by (simp add: n_def g_def)
qed

theorem forward_no_instances_witness:
  "geometry_sized culled_geom 1
   \<and> tiles_touched_ok (tile_grid_of example_cfg 17 1) culled_geom 1
   \<and> sum_list (map unat (pre_tiles_touched culled_geom)) = 0
   \<and> (\<exists>ev res dev. forward example_cfg 1 17 1 (None :: unit option) [1, 1, 1] culled_geom example_mem
         example_blend = (ev, Inr res)
       \<and> res_num_rendered res = 0
       \<and> res_device res = Some dev
       \<and> res_ranges dev ! 0 = \<lparr>u2x = 0, u2y = 0\<rparr> \<and> res_ranges dev ! 1 = \<lparr>u2x = 0, u2y = 0\<rparr>
       \<and> res_out_color dev = replicate 17 [1, 1, 1])"
proof -
  have sized: "geometry_sized culled_geom 1"
    by (simp add: geometry_sized_def culled_geom_def)
  have touched: "tiles_touched_ok (tile_grid_of example_cfg 17 1) culled_geom 1"
    unfolding example_grid unfolding culled_geom_def by code_simp
  have none: "sum_list (map unat (pre_tiles_touched culled_geom)) = 0"
    by (simp add: culled_geom_def)
  have cfg: "NUM_CHANNELS example_cfg = 3 \<or> (None :: unit option) \<noteq> None"
    "1 \<le> BLOCK_X example_cfg" "1 \<le> BLOCK_Y example_cfg"
    by (simp_all add: example_cfg_simps)
  have image: "1 \<le> (17 :: int)" "1 \<le> (1 :: int)"
    "17 + BLOCK_X example_cfg - 1 < 2 ^ 31" "1 + BLOCK_Y example_cfg - 1 < 2 ^ 31"
    "(17 :: int) * 1 < 2 ^ 31" "1 \<le> (1 :: nat)"
    by (simp_all add: example_cfg_simps)
  have tiles: "unat (d3x (tile_grid_of example_cfg 17 1) * d3y (tile_grid_of example_cfg 17 1)) = 2"
    by (simp add: example_grid)
  from forward_no_instances [OF cfg image sized touched none, of "[1, 1, 1]" example_mem example_blend]
  obtain ev res dev where
    ret: "forward example_cfg 1 17 1 (None :: unit option) [1, 1, 1] culled_geom example_mem
         example_blend = (ev, Inr res)"
    and num: "res_num_rendered res = 0"
    and dev: "res_device res = Some dev"
    and ranges: "\<And>t. t < 2 \<Longrightarrow> res_ranges dev ! t = \<lparr>u2x = 0, u2y = 0\<rparr>"
    and img: "res_out_color dev = replicate (nat (17 * 1)) [1, 1, 1]"
    unfolding tiles by blast
  have "res_ranges dev ! 0 = \<lparr>u2x = 0, u2y = 0\<rparr>" "res_ranges dev ! 1 = \<lparr>u2x = 0, u2y = 0\<rparr>"
    by (simp_all add: ranges)
  with ret num dev img sized touched none show ?thesis
    by auto
qed

section \<open>When no kernel leaves its arrays\<close>

lemma render_pixels_defined:
  assumes "\<And>pix. pix \<in> set pixs \<Longrightarrow> tile pix < length ranges
      \<and> (unat (u2y (ranges ! tile pix)) \<le> unat (u2x (ranges ! tile pix))
          \<or> unat (u2y (ranges ! tile pix)) \<le> length point_list)"
  shows "\<exists>img. render_pixels tile blend ranges point_list background pixs = Some img"
  using assms
proof (induction pixs)
  case Nil
  show ?case
    by simp
next
  case (Cons pix rest)
  from Cons.prems [of pix] have rng: "nth_opt ranges (tile pix) = Some (ranges ! tile pix)"
    and stop: "unat (u2y (ranges ! tile pix)) \<le> unat (u2x (ranges ! tile pix))
          \<or> unat (u2y (ranges ! tile pix)) \<le> length point_list"
    by (simp_all add: nth_opt_def)
  from stop have "\<exists>c. render_pixel blend (ranges ! tile pix) point_list background pix = Some c"
    by (auto simp: render_pixel_def Let_def)
  then obtain c where
    c: "render_pixel blend (ranges ! tile pix) point_list background pix = Some c"
    by blast
  from Cons.prems obtain cs where
    "render_pixels tile blend ranges point_list background rest = Some cs"
    using Cons.IH by auto
  with rng c show ?case
    by simp
qed

text \<open>
  A call with an accepted configuration, an image whose sizes do not overflow \<open>int\<close>, at least
  one primitive, and geometry that keeps the contract of the projection stage with a sum of
  touch counts below \<open>2 ^ 31\<close> returns that sum, and no kernel leaves its arrays.
\<close>

lemma forward_device_defined:
  assumes "NUM_CHANNELS cfg = 3 \<or> colors_precomp \<noteq> None"
    and "1 \<le> BLOCK_X cfg" and "1 \<le> BLOCK_Y cfg"
    and "1 \<le> width" and "1 \<le> height"
    and "width + BLOCK_X cfg - 1 < 2 ^ 31" and "height + BLOCK_Y cfg - 1 < 2 ^ 31"
    and "width * height < 2 ^ 31"
    and "1 \<le> P"
    and "geometry_sized geom P"
    and "tiles_touched_ok (tile_grid_of cfg width height) geom P"
    and "sum_list (map unat (pre_tiles_touched geom)) < 2 ^ 31"
  shows "\<exists>ev res dev. forward cfg P width height colors_precomp background geom mem blend = (ev, Inr res)
      \<and> res_device res = Some dev
      \<and> res_num_rendered res = int (sum_list (map unat (pre_tiles_touched geom)))"
proof -
  define g where "g = tile_grid_of cfg width height"
  define n where "n = unat (d3x g * d3y g)"
  define N where "N = nat (width * height)"
  define R where "R = sum_list (map unat (pre_tiles_touched geom))"
  define offs where "offs = inclusive_scan 0 (pre_tiles_touched geom)"
  define len where "len = (\<lambda>i. length (prim_tiles g (pre_radii geom) (pre_points_xy geom) i))"
  define K where "K = concat (map (prim_keys g (pre_radii geom) (pre_points_xy geom)
      (pre_depths geom)) [0 ..< P])"
  define V where "V = concat (map (prim_values g (pre_radii geom) (pre_points_xy geom)) [0 ..< P])"
  define SP where "SP = SortPairs (zip K V) 0 (nat (sort_end_bit g))"
  define ranges0 where "ranges0 = replicate n \<lparr>u2x = 0, u2y = 0\<rparr> @ map (junk_ranges mem) [n ..< N]"
  note image = assms(2-8)
  have R31: "R < 2 ^ 31"
    using assms(12) by (simp add: R_def)
  from assms(10) have sz: "length (pre_radii geom) = P" "length (pre_points_xy geom) = P"
    "length (pre_depths geom) = P" "length (pre_tiles_touched geom) = P"
    by (simp_all add: geometry_sized_def)
  have ok: "(NUM_CHANNELS cfg \<noteq> 3 \<and> colors_precomp = None) = False"
    using assms(1) by auto
  have "0 \<le> width * height"
    using assms(4,5) by simp
  then have pixels32: "int32 (width * height) = width * height"
    using assms(8) by (intro int32_eq) simp_all
  have scan: "InclusiveSum (pre_tiles_touched geom) P = Some offs"
    by (simp add: InclusiveSum_def sz offs_def)
  have tt: "unat (pre_tiles_touched geom ! i) = len i" if "i < P" for i
    using assms(11) that by (simp add: tiles_touched_ok_def len_def g_def)
  have "map unat (pre_tiles_touched geom) = map len [0 ..< P]"
    using tt sz(4) by (intro nth_equalityI) simp_all
  then have R_len: "R = sum_list (map len [0 ..< P])"
    by (simp add: R_def)
  have lenKV: "length K = R" "length V = R"
    by (simp_all add: K_def V_def R_len len_def length_concat comp_def)
  have "offs ! (P - 1) = 0 + sum_list (take (Suc (P - 1)) (pre_tiles_touched geom))"
    unfolding offs_def by (rule inclusive_scan_nth) (use assms(9) sz in simp)
  also have "\<dots> = sum_list (pre_tiles_touched geom)"
    using assms(9) sz by simp
  also have "\<dots> = of_nat R"
    unfolding R_def by (rule sum_list_of_nat_unat)
  finally have last: "offs ! (P - 1) = of_nat R" .
  have rd: "read_at offs (int P - 1) = Some (of_nat R)"
    using assms(9) sz by (simp add: read_at_def offs_def nat_diff_distrib' flip: last)
  have count: "sint (of_nat R :: uint32_t) = int R"
    using R31 by (rule sint_of_nat_small)
  have "duplicateWithKeys P (pre_points_xy geom) (pre_depths geom) offs (pre_radii geom)
           g (map (junk_keys mem) [0 ..< R], map (junk_values mem) [0 ..< R]) =
     (if sum_list (map len [0 ..< P]) \<le> length (map (junk_keys mem) [0 ..< R])
      then Some (write_run (map (junk_keys mem) [0 ..< R]) 0 K,
                 write_run (map (junk_values mem) [0 ..< R]) 0 V)
      else None)"
    unfolding len_def K_def V_def
  proof (rule duplicateWithKeys_eq)
    show "P \<le> length (pre_radii geom)" "P \<le> length (pre_points_xy geom)"
      "P \<le> length (pre_depths geom)" "P \<le> length (pre_tiles_touched geom)"
      by (simp_all add: sz)
    show "offs = inclusive_scan 0 (take P (pre_tiles_touched geom))"
      by (simp add: offs_def sz)
    show "unat (pre_tiles_touched geom ! i)
        = length (prim_tiles g (pre_radii geom) (pre_points_xy geom) i)" if "i < P" for i
      using tt [OF that] by (simp add: len_def)
    show "length (map (junk_keys mem) [0 ..< R]) = length (map (junk_values mem) [0 ..< R])"
      by simp
    show "length (map (junk_keys mem) [0 ..< R]) < 2 ^ 32"
      using R31 by simp
  qed
  then have dup: "duplicateWithKeys P (pre_points_xy geom) (pre_depths geom) offs (pre_radii geom)
           g (map (junk_keys mem) [0 ..< R], map (junk_values mem) [0 ..< R]) = Some (K, V)"
    using lenKV by (simp add: R_len [symmetric] write_run_all)
  have grid: "unat (d3x g) * unat (d3y g) < 2 ^ 32"
    unfolding g_def by (rule tile_grid_size(2) [OF image])
  have n_le: "n \<le> N"
    using tile_grid_size(1,3) [OF image] by (simp add: n_def g_def N_def)
  have tileK: "tile_of key < n" if "key \<in> set K" for key
  proof -
    from that obtain i where "key \<in> set (prim_keys g (pre_radii geom) (pre_points_xy geom)
      (pre_depths geom) i)"
      by (auto simp: K_def)
    then show ?thesis
      unfolding n_def using grid by (rule prim_keys_tile)
  qed
  have inK: "fst p \<in> set K" if "p \<in> set (zip K V)" for p
    using set_zip_leftD [of "fst p" "snd p" K V] that by simp
  have lenSP: "length SP = R"
    by (simp add: SP_def lenKV)
  have tileSP: "\<forall>key \<in> set (map fst SP). tile_of key < n"
    using tileK inK by (auto simp: SP_def)
  have "\<forall>p \<in> set (zip K V). unat (fst p) < 2 ^ nat (sort_end_bit g)"
    using tileK inK key_below_end_bit unfolding n_def by blast
  then have "sorted (map (\<lambda>p. unat (fst p)) SP)"
    unfolding SP_def by (rule SortPairs_sorted)
  then have "sorted (map unat (map fst SP))"
    by (simp add: comp_def)
  then have srt: "sorted (map tile_of (map fst SP))"
    by (rule sorted_keys_tiles)
  have memset: "memset_ranges (junk_ranges mem) N g = Some ranges0"
    using n_le by (simp add: memset_ranges_def Let_def ranges0_def n_def)
  have size0: "length ranges0 = N"
    using n_le by (simp add: ranges0_def)
  have zeroed: "ranges0 ! t = \<lparr>u2x = 0, u2y = 0\<rparr>" if "t < n" for t
    using that by (simp add: ranges0_def nth_append)
  define ranges where "ranges = (if 0 < R
      then map (\<lambda>t. if t \<in> tile_of ` set (map fst SP)
                      then \<lparr>u2x = of_nat (length (filter (\<lambda>key. tile_of key < t) (map fst SP))),
                            u2y = of_nat (length (filter (\<lambda>key. tile_of key \<le> t) (map fst SP)))\<rparr>
                      else ranges0 ! t) [0 ..< length ranges0]
      else ranges0)"
  have bound: "\<forall>key \<in> set (map fst SP). tile_of key < length ranges0"
    using tileSP n_le size0 by fastforce
  have ident: "(if 0 < R then identifyTileRanges R (map fst SP) ranges0 else Some ranges0)
      = Some ranges"
    using identifyTileRanges_eq [OF srt bound] by (simp add: ranges_def lenSP)
  have size: "length ranges = N"
    by (simp add: ranges_def size0)
  have stop: "unat (u2y (ranges ! t)) \<le> unat (u2x (ranges ! t))
      \<or> unat (u2y (ranges ! t)) \<le> length (map snd SP)" if "t < n" for t
  proof (cases "0 < R \<and> t \<in> tile_of ` set (map fst SP)")
    case False
    with that n_le show ?thesis
      by (auto simp: ranges_def size0 zeroed)
  next
    case True
    have len31: "length (map fst SP) < 2 ^ 31"
      using R31 by (simp add: lenSP)
    from True that n_le have "u2y (ranges ! t)
        = of_nat (length (filter (\<lambda>key. tile_of key \<le> t) (map fst SP)))"
      by (simp add: ranges_def size0)
    then have "unat (u2y (ranges ! t)) = length (filter (\<lambda>key. tile_of key \<le> t) (map fst SP))"
      by (simp only: unat_of_nat_count [OF len31])
    also have "\<dots> \<le> length (map fst SP)"
      by (rule length_filter_le)
    finally show ?thesis
      by simp
  qed
  have pixels: "nat width * nat height = N"
    using assms(4) by (simp add: N_def nat_mult_distrib)
  have "\<exists>img. render_pixels (tile_of_pixel (nat (BLOCK_X cfg)) (nat (BLOCK_Y cfg)) g (nat width)) blend
      ranges (map snd SP) background [0 ..< nat width * nat height] = Some img"
  proof (rule render_pixels_defined)
    fix pix
    assume "pix \<in> set [0 ..< nat width * nat height]"
    then have "pix < nat width * nat height"
      by simp
    from tile_of_pixel_less [OF image this]
    have t: "tile_of_pixel (nat (BLOCK_X cfg)) (nat (BLOCK_Y cfg)) g (nat width) pix < n"
      by (simp add: n_def g_def)
    with n_le size stop [OF t]
    show "tile_of_pixel (nat (BLOCK_X cfg)) (nat (BLOCK_Y cfg)) g (nat width) pix < length ranges
      \<and> (unat (u2y (ranges ! tile_of_pixel (nat (BLOCK_X cfg)) (nat (BLOCK_Y cfg)) g (nat width) pix))
          \<le> unat (u2x (ranges ! tile_of_pixel (nat (BLOCK_X cfg)) (nat (BLOCK_Y cfg)) g (nat width) pix))
        \<or> unat (u2y (ranges ! tile_of_pixel (nat (BLOCK_X cfg)) (nat (BLOCK_Y cfg)) g (nat width) pix))
          \<le> length (map snd SP))"
      by simp
  qed
  then obtain img where render: "render (nat (BLOCK_X cfg)) (nat (BLOCK_Y cfg)) g (nat width)
      (nat height) blend ranges (map snd SP) background = Some img"
    by (auto simp: render_def)
  have "snd (forward cfg P width height colors_precomp background geom mem blend) =
      Inr \<lparr>res_num_rendered = int R, res_point_offsets = offs,
           res_device = Some \<lparr>res_point_list_keys = map fst SP, res_point_list = map snd SP,
             res_ranges = ranges, res_out_color = img\<rparr>\<rparr>"
  proof (cases "0 < R")
    case True
    with ident have "identifyTileRanges R (map fst SP) ranges0 = Some ranges"
      by simp
    then show ?thesis
      unfolding forward_def Let_def ok if_False g_def [symmetric] pixels32 N_def [symmetric]
        scan option.case rd count snd_conv nat_int SP_def dup prod.case memset
      using True by (simp add: render [unfolded SP_def])
  next
    case False
    with ident have "ranges = ranges0"
      by simp
    with False show ?thesis
      unfolding forward_def Let_def ok if_False g_def [symmetric] pixels32 N_def [symmetric]
        scan option.case rd count snd_conv nat_int SP_def dup prod.case memset
      using render [unfolded SP_def] by simp
  qed
  then have "forward cfg P width height colors_precomp background geom mem blend =
      (fst (forward cfg P width height colors_precomp background geom mem blend),
       Inr \<lparr>res_num_rendered = int R, res_point_offsets = offs,
           res_device = Some \<lparr>res_point_list_keys = map fst SP, res_point_list = map snd SP,
             res_ranges = ranges, res_out_color = img\<rparr>\<rparr>)"
    by (metis prod.collapse)
  then show ?thesis
    unfolding R_def
    by (intro exI [of _ "fst (forward cfg P width height colors_precomp background geom mem blend)"]
        exI [of _ "\<lparr>res_num_rendered = int (sum_list (map unat (pre_tiles_touched geom))),
           res_point_offsets = offs,
           res_device = Some \<lparr>res_point_list_keys = map fst SP, res_point_list = map snd SP,
             res_ranges = ranges, res_out_color = img\<rparr>\<rparr>"]
        exI [of _ "\<lparr>res_point_list_keys = map fst SP, res_point_list = map snd SP,
             res_ranges = ranges, res_out_color = img\<rparr>"]) simp
qed

end
